theory Spec2Isabelle
  imports Main "HOL-Library.Char_ord" "HOL-Library.List_Lexorder"
begin

section \<open>Values, property keys and raw targets\<close>

text \<open>
  The development embeds the reactive engine of
  \<^verbatim>\<open>5.7.1 ... length.js\<close> (createReactive, track, trigger, effect, cleanup) and the
  batching scheduler of the scheduler example file (flushJob and its scheduler option).

  A raw target and an effect function are JavaScript objects; each is identified by a
  number. A property key that reaches a Proxy trap is a string or a symbol.
  Numbers are modelled as integers together with NaN: fractions, infinities and the
  negative zero are outside the model.
\<close>

type_synonym ref = nat
type_synonym eid = nat

datatype key = KStr string | KSym nat

datatype val = VUndef | VNum int | VNaN | VStr string | VObj ref

datatype error = TypeError | RangeError | StackOverflow | OutOfFuel

text \<open>\<^verbatim>\<open>const ITERATE_KEY = Symbol()\<close>\<close>

definition ITERATE_KEY :: key where
  "ITERATE_KEY = KSym 0"

text \<open>
  The strict equality \<^verbatim>\<open>===\<close>: NaN differs from itself, objects are compared by
  identity.
\<close>

fun strict_eq :: "val \<Rightarrow> val \<Rightarrow> bool" where
  "strict_eq VNaN _ = False"
| "strict_eq _ VNaN = False"
| "strict_eq a b = (a = b)"

text \<open>
  The specification's words: the same value, NaN being equal to itself. This definition
  follows the specification, not the source; \<open>strict_eq\<close> above is the source's.
\<close>

definition same_value :: "val \<Rightarrow> val \<Rightarrow> bool" where
  "same_value a b = (a = b)"

text \<open>
  ToNumber on strings, with \<open>None\<close> for NaN. A string of decimal digits has its value,
  the empty string is 0, and every other string is taken to be NaN, as the property
  names \<^verbatim>\<open>length\<close> or \<^verbatim>\<open>foo\<close> are (signs, blanks, fractions and exponents are not
  modelled). ToNumber on values: \<^verbatim>\<open>undefined\<close> is NaN, and so is an object here (its
  conversion methods are not run).
\<close>

definition is_digit :: "char \<Rightarrow> bool" where
  "is_digit c = (CHR ''0'' \<le> c \<and> c \<le> CHR ''9'')"

definition digit_val :: "char \<Rightarrow> nat" where
  "digit_val c = of_char c - 48"

definition str_to_number :: "string \<Rightarrow> int option" where
  "str_to_number s =
     (if list_all is_digit s then Some (int (foldl (\<lambda>a c. 10 * a + digit_val c) 0 s))
      else None)"

fun to_number :: "val \<Rightarrow> int option" where
  "to_number VUndef = None"
| "to_number (VNum n) = Some n"
| "to_number VNaN = None"
| "to_number (VStr s) = str_to_number s"
| "to_number (VObj r) = None"

text \<open>\<^verbatim>\<open>Number(key)\<close>: a symbol cannot be converted and throws.\<close>

fun Number_key :: "key \<Rightarrow> error + int option" where
  "Number_key (KStr s) = Inr (str_to_number s)"
| "Number_key (KSym n) = Inl TypeError"

text \<open>\<^verbatim>\<open>a < b\<close> on numbers: false as soon as one side is NaN.\<close>

fun num_lt :: "int option \<Rightarrow> int option \<Rightarrow> bool" where
  "num_lt (Some a) (Some b) = (a < b)"
| "num_lt _ _ = False"

text \<open>
  \<^verbatim>\<open>key >= newVal\<close>, the comparison of the truncation scan. A symbol operand throws a
  TypeError; two strings are compared as strings; otherwise both sides are converted to
  numbers and NaN makes the comparison false.
\<close>

fun key_ge :: "key \<Rightarrow> val \<Rightarrow> error + bool" where
  "key_ge (KSym n) v = Inl TypeError"
| "key_ge (KStr s) (VStr t) = Inr (\<not> s < t)"
| "key_ge (KStr s) v =
     Inr (case (str_to_number s, to_number v) of
            (Some a, Some b) \<Rightarrow> b \<le> a
          | _ \<Rightarrow> False)"

text \<open>Template literal substitution \<^verbatim>\<open>${key}\<close>: ToString of a symbol throws.\<close>

fun template_key :: "key \<Rightarrow> error + string" where
  "template_key (KStr s) = Inr s"
| "template_key (KSym n) = Inl TypeError"

text \<open>
  A raw target: a plain object or an array, with its own properties. An array keeps its
  \<^verbatim>\<open>length\<close> among its properties.
\<close>

record jsobj =
  is_array :: bool
  props :: "key \<rightharpoonup> val"

text \<open>
  An array index is a canonical numeric string below \<open>2^32 - 1\<close>.
\<close>

definition array_index :: "key \<Rightarrow> nat option" where
  "array_index k =
     (case k of
        KSym _ \<Rightarrow> None
      | KStr s \<Rightarrow>
          (if s \<noteq> [] \<and> list_all is_digit s \<and> (hd s \<noteq> CHR ''0'' \<or> length s = 1)
              \<and> foldl (\<lambda>a c. 10 * a + digit_val c) 0 s < 4294967295
           then Some (foldl (\<lambda>a c. 10 * a + digit_val c) 0 s) else None))"

section \<open>The global state of the engine\<close>

text \<open>
  \<open>bucket\<close> is the WeakMap from a target to its Map from keys to Sets of effect
  functions. A Map and a Set iterate in insertion order, so both are lists; the Set of a
  key is never removed from its Map, so \<open>(target, key)\<close> identifies it and
  \<^verbatim>\<open>effectFn.deps\<close> is a list of such pairs.
  \<open>console\<close> holds the warnings printed, \<open>jobQueue\<close>, \<open>isFlushing\<close> and \<open>microtasks\<close>
  (the number of flush callbacks waiting on the resolved promise) belong to the
  scheduler example.
  \<open>runlog\<close> and \<open>tracklog\<close> are observations added by the model: every execution of an
  effect function appends its identity to \<open>runlog\<close>, every dependency recorded by
  \<open>track\<close> is appended to \<open>tracklog\<close>.
\<close>

type_synonym depsmap = "(key \<times> eid list) list"

record state =
  heap :: "ref \<Rightarrow> jsobj"
  bucket :: "ref \<rightharpoonup> depsmap"
  edeps :: "eid \<Rightarrow> (ref \<times> key) list"
  activeEffect :: "eid option"
  effectStack :: "eid list"
  console :: "string list"
  jobQueue :: "eid list"
  isFlushing :: bool
  microtasks :: nat
  runlog :: "eid list"
  tracklog :: "(eid \<times> ref \<times> key) list"

text \<open>Map.get, Map.set, Set.add and Set.delete on the ordered representations.\<close>

definition map_get :: "depsmap \<Rightarrow> key \<Rightarrow> eid list option" where
  "map_get m k = map_of m k"

fun map_set :: "depsmap \<Rightarrow> key \<Rightarrow> eid list \<Rightarrow> depsmap" where
  "map_set [] k v = [(k, v)]"
| "map_set ((k', v') # m) k v = (if k' = k then (k, v) # m else (k', v') # map_set m k v)"

definition set_add :: "eid \<Rightarrow> eid list \<Rightarrow> eid list" where
  "set_add e xs = (if e \<in> set xs then xs else xs @ [e])"

definition set_delete :: "eid \<Rightarrow> eid list \<Rightarrow> eid list" where
  "set_delete e xs = removeAll e xs"

text \<open>The Set of effect functions subscribed to \<open>(target, key)\<close>, empty when absent.\<close>

definition subscribers :: "state \<Rightarrow> ref \<Rightarrow> key \<Rightarrow> eid list" where
  "subscribers st target k =
     (case bucket st target of
        None \<Rightarrow> []
      | Some depsMap \<Rightarrow> (case map_get depsMap k of None \<Rightarrow> [] | Some deps \<Rightarrow> deps))"

section \<open>track and cleanup\<close>

definition track :: "ref \<Rightarrow> key \<Rightarrow> state \<Rightarrow> state" where
  "track target k st =
     (case activeEffect st of
        None \<Rightarrow> st
      | Some e \<Rightarrow>
          (let depsMap = (case bucket st target of None \<Rightarrow> [] | Some m \<Rightarrow> m);
               deps = (case map_get depsMap k of None \<Rightarrow> [] | Some d \<Rightarrow> d)
           in st\<lparr>bucket := (bucket st)(target \<mapsto> map_set depsMap k (set_add e deps)),
                 edeps := (edeps st)(e := edeps st e @ [(target, k)]),
                 tracklog := tracklog st @ [(e, target, k)]\<rparr>))"

text \<open>\<^verbatim>\<open>deps.delete(effectFn)\<close> for the Set identified by \<open>(target, key)\<close>.\<close>

definition deps_delete :: "eid \<Rightarrow> ref \<times> key \<Rightarrow> state \<Rightarrow> state" where
  "deps_delete e d st =
     (case bucket st (fst d) of
        None \<Rightarrow> st
      | Some depsMap \<Rightarrow>
          (case map_get depsMap (snd d) of
             None \<Rightarrow> st
           | Some deps \<Rightarrow>
               st\<lparr>bucket := (bucket st)(fst d \<mapsto> map_set depsMap (snd d) (set_delete e deps))\<rparr>))"

definition cleanup :: "eid \<Rightarrow> state \<Rightarrow> state" where
  "cleanup e st = (fold (deps_delete e) (edeps st e) st)\<lparr>edeps := (edeps st)(e := [])\<rparr>"

section \<open>Reading and writing raw targets\<close>

text \<open>\<^verbatim>\<open>target[key]\<close> on a raw target: \<^verbatim>\<open>undefined\<close> for an absent property.\<close>

definition get_prop :: "state \<Rightarrow> ref \<Rightarrow> key \<Rightarrow> val" where
  "get_prop st target k = (case props (heap st target) k of None \<Rightarrow> VUndef | Some v \<Rightarrow> v)"

definition hasOwnProperty :: "state \<Rightarrow> ref \<Rightarrow> key \<Rightarrow> bool" where
  "hasOwnProperty st target k = (props (heap st target) k \<noteq> None)"

text \<open>
  Defining a data property on an object. On an array, writing \<^verbatim>\<open>length\<close> needs a
  valid length (a RangeError otherwise) and removes the elements from the new length on;
  writing an index at or beyond the length extends the length.
\<close>

definition define_property :: "ref \<Rightarrow> key \<Rightarrow> val \<Rightarrow> state \<Rightarrow> error + state" where
  "define_property r k v st =
     (let ob = heap st r in
      if is_array ob \<and> k = KStr ''length'' then
        (case to_number v of
           None \<Rightarrow> Inl RangeError
         | Some n \<Rightarrow>
             if 0 \<le> n \<and> n < 4294967296 then
               Inr (st\<lparr>heap := (heap st)(r := ob\<lparr>props :=
                      (\<lambda>k'. case array_index k' of
                               None \<Rightarrow> props ob k'
                             | Some i \<Rightarrow> if n \<le> int i then None else props ob k')
                      (k \<mapsto> VNum n)\<rparr>)\<rparr>)
             else Inl RangeError)
      else if is_array ob then
        (case array_index k of
           None \<Rightarrow> Inr (st\<lparr>heap := (heap st)(r := ob\<lparr>props := (props ob)(k \<mapsto> v)\<rparr>)\<rparr>)
         | Some i \<Rightarrow>
             if num_lt (Some (int i)) (to_number (get_prop st r (KStr ''length''))) then
               Inr (st\<lparr>heap := (heap st)(r := ob\<lparr>props := (props ob)(k \<mapsto> v)\<rparr>)\<rparr>)
             else
               Inr (st\<lparr>heap := (heap st)(r := ob\<lparr>props :=
                      (props ob)(k \<mapsto> v, KStr ''length'' \<mapsto> VNum (int i + 1))\<rparr>)\<rparr>))
      else Inr (st\<lparr>heap := (heap st)(r := ob\<lparr>props := (props ob)(k \<mapsto> v)\<rparr>)\<rparr>))"

section \<open>Proxies\<close>

text \<open>
  \<open>Reactive target isShallow isReadonly\<close> is the Proxy returned by
  \<^verbatim>\<open>createReactive(target, isShallow, isReadonly)\<close>; \<open>Basic target\<close> is the Proxy of the
  scheduler example, with its two traps.
\<close>

datatype proxy = Reactive ref bool bool | Basic ref

definition createReactive :: "ref \<Rightarrow> bool \<Rightarrow> bool \<Rightarrow> proxy" where
  "createReactive obj isShallow isReadonly = Reactive obj isShallow isReadonly"

definition reactive :: "ref \<Rightarrow> proxy" where
  "reactive obj = createReactive obj False False"

definition shallowReactive :: "ref \<Rightarrow> proxy" where
  "shallowReactive obj = createReactive obj True False"

definition readonly :: "ref \<Rightarrow> proxy" where
  "readonly obj = createReactive obj False True"

definition shallowReadonly :: "ref \<Rightarrow> proxy" where
  "shallowReadonly obj = createReactive obj True True"

text \<open>The target a Proxy wraps.\<close>

fun target_of :: "proxy \<Rightarrow> ref" where
  "target_of (Reactive t sh ro) = t"
| "target_of (Basic t) = t"

text \<open>A read through a Proxy returns a value or, for a nested object, a new Proxy.\<close>

datatype gres = GVal val | GProxy proxy

text \<open>
  \<^verbatim>\<open>Reflect.get(target, key, receiver)\<close>: getters and prototype chains are not modelled,
  so the own property is read.
\<close>

definition Reflect_get :: "state \<Rightarrow> ref \<Rightarrow> key \<Rightarrow> val" where
  "Reflect_get st target k = get_prop st target k"

fun get_trap :: "proxy \<Rightarrow> key \<Rightarrow> state \<Rightarrow> gres \<times> state" where
  "get_trap (Reactive target isShallow isReadonly) k st =
     (if k = KStr ''raw'' then (GVal (VObj target), st)
      else
        (let st1 = (if \<not> isReadonly then track target k st else st);
             res = Reflect_get st1 target k
         in if isShallow then (GVal res, st1)
            else (case res of
                    VObj r \<Rightarrow> (GProxy (if isReadonly then readonly r else reactive r), st1)
                  | _ \<Rightarrow> (GVal res, st1))))"
| "get_trap (Basic target) k st =
     (let st1 = track target k st in (GVal (get_prop st1 target k), st1))"

text \<open>
  \<^verbatim>\<open>Reflect.set(target, key, newVal, receiver)\<close>: with data properties only, the value is
  defined on the receiver, which forwards to the target it wraps. The result is
  \<^verbatim>\<open>true\<close>.
\<close>

definition Reflect_set :: "ref \<Rightarrow> key \<Rightarrow> val \<Rightarrow> proxy \<Rightarrow> state \<Rightarrow> error + bool \<times> state" where
  "Reflect_set target k newVal receiver st =
     (case define_property (target_of receiver) k newVal st of
        Inl err \<Rightarrow> Inl err
      | Inr st1 \<Rightarrow> Inr (True, st1))"

text \<open>
  \<^verbatim>\<open>Reflect.deleteProperty(target, key)\<close>: the \<^verbatim>\<open>length\<close> of an array cannot be deleted
  (the result is \<^verbatim>\<open>false\<close>); any other property is removed.
\<close>

definition Reflect_deleteProperty :: "ref \<Rightarrow> key \<Rightarrow> state \<Rightarrow> bool \<times> state" where
  "Reflect_deleteProperty target k st =
     (let ob = heap st target in
      if is_array ob \<and> k = KStr ''length'' then (False, st)
      else (True, st\<lparr>heap := (heap st)(target := ob\<lparr>props := (props ob)(k := None)\<rparr>)\<rparr>))"

text \<open>
  \<^verbatim>\<open>Reflect.has(target, key)\<close>: the targets are plain data whose prototype chain holds
  none of the keys used, so the test is the one for an own property.
\<close>

definition Reflect_has :: "state \<Rightarrow> ref \<Rightarrow> key \<Rightarrow> bool" where
  "Reflect_has st target k = hasOwnProperty st target k"

section \<open>trigger\<close>

datatype ttype = SET | ADD | DELETE

type_synonym runner = "eid \<Rightarrow> state \<Rightarrow> error + state"

text \<open>
  \<^verbatim>\<open>effects && effects.forEach(effectFn => { if (effectFn !== activeEffect)
  effectsToRun.add(effectFn) })\<close>
\<close>

definition add_effects :: "eid option \<Rightarrow> eid list option \<Rightarrow> eid list \<Rightarrow> eid list" where
  "add_effects act effects acc =
     (case effects of
        None \<Rightarrow> acc
      | Some es \<Rightarrow> foldl (\<lambda>r e. if Some e \<noteq> act then set_add e r else r) acc es)"

text \<open>
  The scan of \<^verbatim>\<open>depsMap.forEach((effects, key) => { if (key >= newVal) ... })\<close>, in the
  insertion order of the Map; a comparison that throws ends it.
\<close>

fun length_scan :: "eid option \<Rightarrow> val \<Rightarrow> depsmap \<Rightarrow> eid list \<Rightarrow> error + eid list" where
  "length_scan act newVal [] acc = Inr acc"
| "length_scan act newVal ((k, es) # m) acc =
     (case key_ge k newVal of
        Inl err \<Rightarrow> Inl err
      | Inr b \<Rightarrow> length_scan act newVal m (if b then add_effects act (Some es) acc else acc))"

text \<open>The Set \<^verbatim>\<open>effectsToRun\<close> that trigger builds before it runs anything.\<close>

definition effectsToRun ::
  "state \<Rightarrow> ref \<Rightarrow> key \<Rightarrow> ttype \<Rightarrow> val \<Rightarrow> depsmap \<Rightarrow> error + eid list" where
  "effectsToRun st target k ty newVal depsMap =
     (let act = activeEffect st;
          r1 = add_effects act (map_get depsMap k) [];
          r2 = (if ty = ADD \<or> ty = DELETE
                then add_effects act (map_get depsMap ITERATE_KEY) r1 else r1);
          r3 = (if ty = ADD \<and> is_array (heap st target)
                then add_effects act (map_get depsMap (KStr ''length'')) r2 else r2)
      in if is_array (heap st target) \<and> k = KStr ''length''
         then length_scan act newVal depsMap r3
         else Inr r3)"

section \<open>Effect bodies and programs\<close>

text \<open>
  The body of an effect function is JavaScript code; it is given as a list of the
  operations it performs on proxies:
  \<^item> \<open>OGet p k\<close> is the read \<^verbatim>\<open>p[k]\<close>, \<open>OSet p k v\<close> the assignment \<^verbatim>\<open>p[k] = v\<close>,
    \<open>OIncr p k\<close> is \<^verbatim>\<open>p[k]++\<close>;
  \<^item> \<open>OHas p k\<close> is \<^verbatim>\<open>k in p\<close>, \<open>OKeys p\<close> is \<^verbatim>\<open>for (const key in p) {}\<close>,
    \<open>ODelete p k\<close> is \<^verbatim>\<open>delete p[k]\<close>;
  \<^item> \<open>OIf p k a b\<close> is \<^verbatim>\<open>if (p[k]) { a } else { b }\<close>.
  A program gives every effect function its body and its options. A scheduler is called
  with the effect function, which it may run, hence its first argument.
\<close>

datatype op =
    OGet proxy key
  | OSet proxy key val
  | OIncr proxy key
  | OHas proxy key
  | OKeys proxy
  | ODelete proxy key
  | OIf proxy key "op list" "op list"

record prog =
  body :: "eid \<Rightarrow> op list"
  scheduler :: "eid \<Rightarrow> (runner \<Rightarrow> eid \<Rightarrow> state \<Rightarrow> error + state) option"
  lazy :: "eid \<Rightarrow> bool"

text \<open>
  \<^verbatim>\<open>effectsToRun.forEach(effectFn => { if (effectFn.options.scheduler)
  effectFn.options.scheduler(effectFn) else effectFn() })\<close>
\<close>

fun run_all :: "runner \<Rightarrow> prog \<Rightarrow> eid list \<Rightarrow> state \<Rightarrow> error + state" where
  "run_all run P [] st = Inr st"
| "run_all run P (e # es) st =
     (case (case scheduler P e of Some sch \<Rightarrow> sch run e st | None \<Rightarrow> run e st) of
        Inl err \<Rightarrow> Inl err
      | Inr st1 \<Rightarrow> run_all run P es st1)"

definition trigger ::
  "runner \<Rightarrow> prog \<Rightarrow> ref \<Rightarrow> key \<Rightarrow> ttype \<Rightarrow> val \<Rightarrow> state \<Rightarrow> error + state" where
  "trigger run P target k ty newVal st =
     (case bucket st target of
        None \<Rightarrow> Inr st
      | Some depsMap \<Rightarrow>
          (case effectsToRun st target k ty newVal depsMap of
             Inl err \<Rightarrow> Inl err
           | Inr effs \<Rightarrow> run_all run P effs st))"

text \<open>The trigger of the scheduler example: the subscribers of the key only.\<close>

definition trigger_basic :: "runner \<Rightarrow> prog \<Rightarrow> ref \<Rightarrow> key \<Rightarrow> state \<Rightarrow> error + state" where
  "trigger_basic run P target k st =
     (case bucket st target of
        None \<Rightarrow> Inr st
      | Some depsMap \<Rightarrow>
          run_all run P (add_effects (activeEffect st) (map_get depsMap k) []) st)"

section \<open>The traps\<close>

text \<open>
  The classification of a write:
  \<^verbatim>\<open>Array.isArray(target) ? (Number(key) < target.length ? 'SET' : 'ADD')
  : (Object.prototype.hasOwnProperty.call(target, key) ? 'SET' : 'ADD')\<close>
\<close>

definition set_type :: "state \<Rightarrow> ref \<Rightarrow> key \<Rightarrow> error + ttype" where
  "set_type st target k =
     (if is_array (heap st target) then
        (case Number_key k of
           Inl err \<Rightarrow> Inl err
         | Inr n \<Rightarrow>
             Inr (if num_lt n (to_number (get_prop st target (KStr ''length'')))
                  then SET else ADD))
      else Inr (if hasOwnProperty st target k then SET else ADD))"

text \<open>
  \<^verbatim>\<open>console.warn\<close> of the read-only message for a key (the message itself is written in
  ASCII here).
\<close>

definition warn_readonly :: "key \<Rightarrow> state \<Rightarrow> error + state" where
  "warn_readonly k st =
     (case template_key k of
        Inl err \<Rightarrow> Inl err
      | Inr s \<Rightarrow> Inr (st\<lparr>console := console st @ [''property '' @ s @ '' is readonly'']\<rparr>))"

fun set_trap ::
  "runner \<Rightarrow> prog \<Rightarrow> proxy \<Rightarrow> key \<Rightarrow> val \<Rightarrow> proxy \<Rightarrow> state \<Rightarrow> error + bool \<times> state" where
  "set_trap run P (Reactive target isShallow isReadonly) k newVal receiver st =
     (if isReadonly then
        (case warn_readonly k st of Inl err \<Rightarrow> Inl err | Inr st1 \<Rightarrow> Inr (True, st1))
      else
        (let oldVal = get_prop st target k in
         case set_type st target k of
           Inl err \<Rightarrow> Inl err
         | Inr ty \<Rightarrow>
             (case Reflect_set target k newVal receiver st of
                Inl err \<Rightarrow> Inl err
              | Inr (res, st1) \<Rightarrow>
                  (case get_trap receiver (KStr ''raw'') st1 of
                     (receiver_raw, st2) \<Rightarrow>
                       if receiver_raw = GVal (VObj target) then
                         if \<not> strict_eq oldVal newVal
                            \<and> (strict_eq oldVal oldVal \<or> strict_eq newVal newVal)
                         then (case trigger run P target k ty newVal st2 of
                                 Inl err \<Rightarrow> Inl err
                               | Inr st3 \<Rightarrow> Inr (res, st3))
                         else Inr (res, st2)
                       else Inr (res, st2)))))"
| "set_trap run P (Basic target) k newVal receiver st =
     (case define_property target k newVal st of
        Inl err \<Rightarrow> Inl err
      | Inr st1 \<Rightarrow>
          (case trigger_basic run P target k st1 of
             Inl err \<Rightarrow> Inl err
           | Inr st2 \<Rightarrow> Inr (False, st2)))"

text \<open>
  \<open>has\<close>, \<open>ownKeys\<close> and \<open>deleteProperty\<close>. The Proxy of the scheduler example has none of
  these traps: the operation goes to its target. The list of keys that \<open>ownKeys\<close>
  returns is not modelled.
\<close>

fun has_trap :: "proxy \<Rightarrow> key \<Rightarrow> state \<Rightarrow> bool \<times> state" where
  "has_trap (Reactive target isShallow isReadonly) k st =
     (let st1 = track target k st in (Reflect_has st1 target k, st1))"
| "has_trap (Basic target) k st = (Reflect_has st target k, st)"

fun ownKeys_trap :: "proxy \<Rightarrow> state \<Rightarrow> state" where
  "ownKeys_trap (Reactive target isShallow isReadonly) st = track target ITERATE_KEY st"
| "ownKeys_trap (Basic target) st = st"

fun deleteProperty_trap ::
  "runner \<Rightarrow> prog \<Rightarrow> proxy \<Rightarrow> key \<Rightarrow> state \<Rightarrow> error + bool \<times> state" where
  "deleteProperty_trap run P (Reactive target isShallow isReadonly) k st =
     (if isReadonly then
        (case warn_readonly k st of Inl err \<Rightarrow> Inl err | Inr st1 \<Rightarrow> Inr (True, st1))
      else
        (let hadKey = hasOwnProperty st target k in
         case Reflect_deleteProperty target k st of
           (res, st1) \<Rightarrow>
             if res \<and> hadKey then
               (case trigger run P target k DELETE VUndef st1 of
                  Inl err \<Rightarrow> Inl err
                | Inr st2 \<Rightarrow> Inr (res, st2))
             else Inr (res, st1)))"
| "deleteProperty_trap run P (Basic target) k st = Inr (Reflect_deleteProperty target k st)"

section \<open>Running effect functions\<close>

text \<open>The value \<^verbatim>\<open>p[k]++\<close> writes back, and the truth of a condition.\<close>

fun incremented :: "gres \<Rightarrow> val" where
  "incremented (GVal v) = (case to_number v of None \<Rightarrow> VNaN | Some n \<Rightarrow> VNum (n + 1))"
| "incremented (GProxy p) = VNaN"

fun truthy :: "gres \<Rightarrow> bool" where
  "truthy (GVal VUndef) = False"
| "truthy (GVal (VNum n)) = (n \<noteq> 0)"
| "truthy (GVal VNaN) = False"
| "truthy (GVal (VStr s)) = (s \<noteq> [])"
| "truthy (GVal (VObj r)) = True"
| "truthy (GProxy p) = True"

definition drop_result :: "error + bool \<times> state \<Rightarrow> error + state" where
  "drop_result r = (case r of Inl err \<Rightarrow> Inl err | Inr (b, st) \<Rightarrow> Inr st)"

fun exec_op :: "runner \<Rightarrow> prog \<Rightarrow> op \<Rightarrow> state \<Rightarrow> error + state"
  and exec_ops :: "runner \<Rightarrow> prog \<Rightarrow> op list \<Rightarrow> state \<Rightarrow> error + state" where
  "exec_op run P (OGet p k) st = Inr (snd (get_trap p k st))"
| "exec_op run P (OSet p k v) st = drop_result (set_trap run P p k v p st)"
| "exec_op run P (OIncr p k) st =
     (case get_trap p k st of
        (old, st1) \<Rightarrow> drop_result (set_trap run P p k (incremented old) p st1))"
| "exec_op run P (OHas p k) st = Inr (snd (has_trap p k st))"
| "exec_op run P (OKeys p) st = Inr (ownKeys_trap p st)"
| "exec_op run P (ODelete p k) st = drop_result (deleteProperty_trap run P p k st)"
| "exec_op run P (OIf p k a b) st =
     (case get_trap p k st of
        (c, st1) \<Rightarrow> if truthy c then exec_ops run P a st1 else exec_ops run P b st1)"
| "exec_ops run P [] st = Inr st"
| "exec_ops run P (c # cs) st =
     (case exec_op run P c st of
        Inl err \<Rightarrow> Inl err
      | Inr st1 \<Rightarrow> exec_ops run P cs st1)"

text \<open>
  The effect function \<^verbatim>\<open>effectFn\<close> that \<^verbatim>\<open>effect(fn, options)\<close> builds. The nested calls of
  effect functions made by its body go through \<open>run\<close>.
\<close>

definition effectFn :: "runner \<Rightarrow> prog \<Rightarrow> eid \<Rightarrow> state \<Rightarrow> error + state" where
  "effectFn run P e st =
     (let st1 = cleanup e (st\<lparr>runlog := runlog st @ [e]\<rparr>);
          st2 = st1\<lparr>activeEffect := Some e, effectStack := effectStack st1 @ [e]\<rparr>
      in case exec_ops run P (body P e) st2 of
           Inl err \<Rightarrow> Inl err
         | Inr st3 \<Rightarrow>
             (let stack = butlast (effectStack st3)
              in Inr (st3\<lparr>effectStack := stack,
                          activeEffect := (if stack = [] then None else Some (last stack))\<rparr>)))"

text \<open>
  A call of an effect function with a bound on the depth of nested calls:
  \<open>run_effect n\<close> allows \<open>n\<close> effect functions on the call stack and answers with a
  stack overflow beyond.
\<close>

primrec run_effect :: "nat \<Rightarrow> prog \<Rightarrow> runner" where
  "run_effect 0 P = (\<lambda>e st. Inl StackOverflow)"
| "run_effect (Suc n) P = effectFn (run_effect n P) P"

text \<open>\<^verbatim>\<open>effect(fn, options)\<close>; the scheduler example's \<open>effect\<close> has no \<open>lazy\<close> option.\<close>

definition effect :: "runner \<Rightarrow> prog \<Rightarrow> eid \<Rightarrow> state \<Rightarrow> error + state" where
  "effect run P e st =
     (let st1 = st\<lparr>edeps := (edeps st)(e := [])\<rparr>
      in if \<not> lazy P e then run e st1 else Inr st1)"

definition effect_basic :: "runner \<Rightarrow> prog \<Rightarrow> eid \<Rightarrow> state \<Rightarrow> error + state" where
  "effect_basic run P e st = run e (st\<lparr>edeps := (edeps st)(e := [])\<rparr>)"

section \<open>The batching scheduler of the scheduler example\<close>

text \<open>
  \<^verbatim>\<open>function flushJob() { if (isFlushing) return; isFlushing = true;
  p.then(() => { jobQueue.forEach(job => job()) }).finally(() => { isFlushing = false }) }\<close>

  The promise \<open>p\<close> is resolved, so \<open>then\<close> queues its callback as a microtask;
  \<open>flushJob\<close> is the synchronous part, \<open>flush_microtask\<close> below is the callback
  followed by the \<open>finally\<close> callback.
\<close>

definition flushJob :: "state \<Rightarrow> state" where
  "flushJob st =
     (if isFlushing st then st
      else st\<lparr>isFlushing := True, microtasks := microtasks st + 1\<rparr>)"

text \<open>\<^verbatim>\<open>scheduler(fn) { jobQueue.add(fn); flushJob() }\<close>\<close>

definition job_scheduler :: "runner \<Rightarrow> eid \<Rightarrow> state \<Rightarrow> error + state" where
  "job_scheduler run fn st = Inr (flushJob (st\<lparr>jobQueue := set_add fn (jobQueue st)\<rparr>))"

text \<open>
  \<^verbatim>\<open>jobQueue.forEach(job => job())\<close>: a Set is visited in insertion order, and a job
  added during the visit is visited too, so the loop walks the current queue by
  position. The first argument bounds the number of jobs visited.
\<close>

fun jobQueue_forEach :: "nat \<Rightarrow> runner \<Rightarrow> nat \<Rightarrow> state \<Rightarrow> error + state" where
  "jobQueue_forEach 0 run i st = (if i < length (jobQueue st) then Inl OutOfFuel else Inr st)"
| "jobQueue_forEach (Suc n) run i st =
     (if i < length (jobQueue st) then
        (case run (jobQueue st ! i) st of
           Inl err \<Rightarrow> Inl err
         | Inr st1 \<Rightarrow> jobQueue_forEach n run (Suc i) st1)
      else Inr st)"

definition flush_microtask :: "nat \<Rightarrow> runner \<Rightarrow> state \<Rightarrow> error + state" where
  "flush_microtask n run st =
     (if microtasks st = 0 then Inr st
      else
        (case jobQueue_forEach n run 0 (st\<lparr>microtasks := microtasks st - 1\<rparr>) of
           Inl err \<Rightarrow> Inl err
         | Inr st1 \<Rightarrow> Inr (st1\<lparr>isFlushing := False\<rparr>)))"

section \<open>Scripts\<close>

text \<open>
  The code at the top level of a file: registrations of effects with \<^verbatim>\<open>effect(...)\<close>
  and operations on proxies, outside any effect function. \<open>Microtask\<close> stands for the
  end of the synchronous section, where one queued flush callback runs.
\<close>

datatype stmt = Effect eid | EffectBasic eid | Do op | Microtask

fun run_stmt :: "nat \<Rightarrow> prog \<Rightarrow> stmt \<Rightarrow> state \<Rightarrow> error + state" where
  "run_stmt n P (Effect e) st = effect (run_effect n P) P e st"
| "run_stmt n P (EffectBasic e) st = effect_basic (run_effect n P) P e st"
| "run_stmt n P (Do c) st = exec_op (run_effect n P) P c st"
| "run_stmt n P Microtask st = flush_microtask n (run_effect n P) st"

fun run_script :: "nat \<Rightarrow> prog \<Rightarrow> stmt list \<Rightarrow> state \<Rightarrow> error + state" where
  "run_script n P [] st = Inr st"
| "run_script n P (c # cs) st =
     (case run_stmt n P c st of
        Inl err \<Rightarrow> Inl err
      | Inr st1 \<Rightarrow> run_script n P cs st1)"

text \<open>The state of a freshly loaded file, over the given raw targets.\<close>

definition init :: "(ref \<Rightarrow> jsobj) \<Rightarrow> state" where
  "init h =
     \<lparr>heap = h, bucket = Map.empty, edeps = (\<lambda>e. []), activeEffect = None,
      effectStack = [], console = [], jobQueue = [], isFlushing = False, microtasks = 0,
      runlog = [], tracklog = []\<rparr>"

text \<open>An object literal.\<close>

definition object_of :: "(string \<times> val) list \<Rightarrow> jsobj" where
  "object_of kvs = \<lparr>is_array = False, props = map_of (map (\<lambda>(k, v). (KStr k, v)) kvs)\<rparr>"

section \<open>Observations and invariants\<close>

text \<open>
  The effect functions executed, and the dependencies recorded, between a state and a
  later one.
\<close>

definition ran_between :: "state \<Rightarrow> state \<Rightarrow> eid list" where
  "ran_between st st' = drop (length (runlog st)) (runlog st')"

definition tracked_between :: "state \<Rightarrow> state \<Rightarrow> (eid \<times> ref \<times> key) list" where
  "tracked_between st st' = drop (length (tracklog st)) (tracklog st')"

text \<open>
  \<open>activeEffect\<close> is the top of \<open>effectStack\<close>, as it is whenever no exception has
  escaped from an effect function.
\<close>

definition wf_stack :: "state \<Rightarrow> bool" where
  "wf_stack st \<longleftrightarrow>
     activeEffect st = (if effectStack st = [] then None else Some (last (effectStack st)))"

text \<open>
  What a piece of code run inside an effect function leaves in place: the stack and the
  active effect, the logs up to new entries, and for every effect function that was not
  run in between its memberships, up to the dependencies it recorded itself (none
  unless it is the active one).
\<close>

definition frame :: "state \<Rightarrow> state \<Rightarrow> bool" where
  "frame st st' \<longleftrightarrow>
     effectStack st' = effectStack st \<and> activeEffect st' = activeEffect st \<and>
     (\<exists>rl tlg. runlog st' = runlog st @ rl \<and> tracklog st' = tracklog st @ tlg \<and>
        (\<forall>a. a \<notin> set rl \<longrightarrow>
           (\<forall>t k. a \<in> set (subscribers st' t k)
                    \<longleftrightarrow> a \<in> set (subscribers st t k) \<or> (a, t, k) \<in> set tlg) \<and>
           (Some a \<noteq> activeEffect st \<longrightarrow> (\<forall>t k. (a, t, k) \<notin> set tlg))))"

text \<open>The same for a call of the effect function \<open>x\<close>.\<close>

definition run_frame :: "eid \<Rightarrow> state \<Rightarrow> state \<Rightarrow> bool" where
  "run_frame x st st' \<longleftrightarrow>
     effectStack st' = effectStack st \<and>
     activeEffect st' = (if effectStack st = [] then None else Some (last (effectStack st))) \<and>
     (\<exists>rl tlg. runlog st' = runlog st @ x # rl \<and> tracklog st' = tracklog st @ tlg \<and>
        (\<forall>a. a \<noteq> x \<and> a \<notin> set rl \<longrightarrow>
           (\<forall>t k. a \<in> set (subscribers st' t k) \<longleftrightarrow> a \<in> set (subscribers st t k)) \<and>
           (\<forall>t k. (a, t, k) \<notin> set tlg)))"

definition runner_ok :: "runner \<Rightarrow> bool" where
  "runner_ok R \<longleftrightarrow> (\<forall>x s s'. R x s = Inr s' \<longrightarrow> run_frame x s s')"

text \<open>No effect function of the program has a scheduler.\<close>

definition no_scheduler :: "prog \<Rightarrow> bool" where
  "no_scheduler P \<longleftrightarrow> (\<forall>e. scheduler P e = None)"

text \<open>
  \<^verbatim>\<open>effectFn.deps\<close> holds every Set the effect function is a member of, as \<open>track\<close>
  ensures for the memberships it creates.
\<close>

definition deps_cover :: "state \<Rightarrow> eid \<Rightarrow> bool" where
  "deps_cover st e \<longleftrightarrow> (\<forall>t k. e \<in> set (subscribers st t k) \<longrightarrow> (t, k) \<in> set (edeps st e))"

text \<open>
  The Set \<^verbatim>\<open>effectsToRun\<close> that \<open>trigger\<close> would build in a state: \<open>trigger\<close> runs
  exactly its members, in order.
\<close>

definition notify_set :: "state \<Rightarrow> ref \<Rightarrow> key \<Rightarrow> ttype \<Rightarrow> val \<Rightarrow> error + eid list" where
  "notify_set st target k ty newVal =
     (case bucket st target of
        None \<Rightarrow> Inr []
      | Some depsMap \<Rightarrow> effectsToRun st target k ty newVal depsMap)"


text \<open>The job queue is only appended to, and stays free of repetitions.\<close>

definition queue_grows :: "state \<Rightarrow> state \<Rightarrow> bool" where
  "queue_grows st st' \<longleftrightarrow>
     (\<exists>js. jobQueue st' = jobQueue st @ js) \<and> (distinct (jobQueue st) \<longrightarrow> distinct (jobQueue st'))"




text \<open>A step that runs nothing and leaves the stack alone.\<close>

definition same_context :: "state \<Rightarrow> state \<Rightarrow> bool" where
  "same_context st st' \<longleftrightarrow>
     effectStack st' = effectStack st \<and> activeEffect st' = activeEffect st
     \<and> runlog st' = runlog st"




text \<open>
  The store invariant in full: the \<open>deps\<close> list of every effect function holds every
  Set the effect function is a member of.
\<close>

definition all_cover :: "state \<Rightarrow> bool" where
  "all_cover st \<longleftrightarrow> (\<forall>e. deps_cover st e)"

text \<open>A runner that keeps the store invariant.\<close>

definition runner_covers :: "runner \<Rightarrow> bool" where
  "runner_covers R \<longleftrightarrow> (\<forall>x s s'. R x s = Inr s' \<longrightarrow> all_cover s \<longrightarrow> all_cover s')"

section \<open>Example programs\<close>

text \<open>
  The array \<^verbatim>\<open>['foo']\<close> of the source file, and an object \<^verbatim>\<open>{ foo: 1 }\<close>, each as the
  only raw target (number 0).
\<close>

definition array_foo :: "ref \<Rightarrow> jsobj" where
  "array_foo = (\<lambda>r. \<lparr>is_array = True,
                     props = [KStr ''0'' \<mapsto> VStr ''foo'', KStr ''length'' \<mapsto> VNum 1]\<rparr>)"

definition object_foo :: "ref \<Rightarrow> jsobj" where
  "object_foo = (\<lambda>r. object_of [(''foo'', VNum 1)])"

text \<open>A program whose effect functions all have the given body and no options.\<close>

definition plain_prog :: "(eid \<Rightarrow> op list) \<Rightarrow> prog" where
  "plain_prog b = \<lparr>body = b, scheduler = (\<lambda>e. None), lazy = (\<lambda>e. False)\<rparr>"

text \<open>\<^verbatim>\<open>effect(() => { for (const key in arr) {} })\<close>\<close>

definition enumerate_body :: "eid \<Rightarrow> op list" where
  "enumerate_body = (\<lambda>e. [OKeys (reactive 0)])"

text \<open>\<^verbatim>\<open>effect(() => { 'foo' in ro; for (const key in sro) {} })\<close> on read-only views.\<close>

definition readonly_reads_body :: "eid \<Rightarrow> op list" where
  "readonly_reads_body = (\<lambda>e. [OHas (readonly 0) (KStr ''foo''), OKeys (shallowReadonly 0)])"

text \<open>
  \<^verbatim>\<open>effect(() => { if (p.ok) { p.text } })\<close> over \<^verbatim>\<open>{ ok: 1, text: 5 }\<close>: the state
  after its registration, after the raw target's \<open>ok\<close> was then set to 0 (not through
  the proxy), and after a further call of the effect function.
\<close>

definition branch_body :: "eid \<Rightarrow> op list" where
  "branch_body = (\<lambda>e. [OIf (reactive 0) (KStr ''ok'') [OGet (reactive 0) (KStr ''text'')] []])"

definition branch_heap :: "ref \<Rightarrow> jsobj" where
  "branch_heap = (\<lambda>r. object_of [(''ok'', VNum 1), (''text'', VNum 5)])"

definition branch_registered :: state where
  "branch_registered =
     projr (run_script (Suc 0) (plain_prog branch_body) [Effect 0] (init branch_heap))"

definition branch_switched :: state where
  "branch_switched = projr (define_property 0 (KStr ''ok'') (VNum 0) branch_registered)"

definition branch_rerun :: state where
  "branch_rerun = projr (run_effect (Suc 0) (plain_prog branch_body) 0 branch_switched)"

text \<open>
  Two effects over \<^verbatim>\<open>{ flag: 1, a: 0, b: 0 }\<close>: effect 1 is
  \<^verbatim>\<open>() => { if (p.b) { p.flag = 0 } }\<close> and effect 0 is
  \<^verbatim>\<open>() => { if (p.flag) { p.a; p.b = 1 } }\<close>. The states are those after the registration
  of effect 1 and after the first run of effect 0 that follows.
\<close>

definition reentry_body :: "eid \<Rightarrow> op list" where
  "reentry_body =
     (\<lambda>e. if e = 0
          then [OIf (reactive 0) (KStr ''flag'')
                  [OGet (reactive 0) (KStr ''a''), OSet (reactive 0) (KStr ''b'') (VNum 1)] []]
          else [OIf (reactive 0) (KStr ''b'') [OSet (reactive 0) (KStr ''flag'') (VNum 0)] []])"

definition reentry_heap :: "ref \<Rightarrow> jsobj" where
  "reentry_heap = (\<lambda>r. object_of [(''flag'', VNum 1), (''a'', VNum 0), (''b'', VNum 0)])"

definition reentry_before :: state where
  "reentry_before =
     projr (run_script (Suc 0) (plain_prog reentry_body) [Effect 1] (init reentry_heap))"

definition reentry_after :: state where
  "reentry_after =
     projr (run_effect (Suc (Suc (Suc 0))) (plain_prog reentry_body) 0 reentry_before)"












text \<open>
  Two raw targets, \<^verbatim>\<open>{ bar: 1 }\<close> (number 0) and \<^verbatim>\<open>{}\<close> (number 1), and
  \<^verbatim>\<open>effect(() => { parent.bar })\<close> on the proxy of the first: the state after the
  registration.
\<close>

definition parent_child_heap :: "ref \<Rightarrow> jsobj" where
  "parent_child_heap = (\<lambda>r. if r = 0 then object_of [(''bar'', VNum 1)] else object_of [])"

definition read_bar_body :: "eid \<Rightarrow> op list" where
  "read_bar_body = (\<lambda>e. [OGet (reactive 0) (KStr ''bar'')])"

definition bar_registered :: state where
  "bar_registered =
     projr (run_script (Suc 0) (plain_prog read_bar_body) [Effect 0] (init parent_child_heap))"













text \<open>Every effect is \<^verbatim>\<open>() => { p.foo++ }\<close>.\<close>

definition incr_body :: "eid \<Rightarrow> op list" where
  "incr_body = (\<lambda>e. [OIncr (reactive 0) (KStr ''foo'')])"

section \<open>Evaluation\<close>

lemmas eval_defs = Let_def init_def object_of_def effect_def effect_basic_def effectFn_def
  cleanup_def deps_delete_def track_def trigger_def trigger_basic_def effectsToRun_def
  add_effects_def set_add_def set_delete_def map_get_def subscribers_def get_prop_def
  hasOwnProperty_def define_property_def Reflect_get_def Reflect_set_def
  Reflect_deleteProperty_def Reflect_has_def set_type_def warn_readonly_def drop_result_def
  reactive_def readonly_def shallowReactive_def shallowReadonly_def createReactive_def
  ITERATE_KEY_def str_to_number_def is_digit_def digit_val_def array_index_def flushJob_def
  job_scheduler_def flush_microtask_def plain_prog_def

lemmas branch_defs = branch_rerun_def branch_switched_def branch_registered_def branch_body_def
  branch_heap_def

lemmas reentry_defs = reentry_after_def reentry_before_def reentry_body_def reentry_heap_def




lemmas bar_defs = bar_registered_def read_bar_body_def parent_child_heap_def




section \<open>The dependency store under track and cleanup\<close>

lemma map_get_Nil [simp]: "map_get [] k = None"
  by (simp add: map_get_def)

lemma map_get_map_set: "map_get (map_set m k v) k' = (if k' = k then Some v else map_get m k')"
  by (induction m) (auto simp: map_get_def)

lemma subscribers_track:
  "subscribers (track t k st) t' k' =
     (case activeEffect st of
        None \<Rightarrow> subscribers st t' k'
      | Some a \<Rightarrow> if t' = t \<and> k' = k then set_add a (subscribers st t k) else subscribers st t' k')"
  by (auto simp: track_def subscribers_def Let_def map_get_map_set split: option.splits)

lemma subscribers_deps_delete:
  "subscribers (deps_delete e d st) t k =
     (if (t, k) = d then set_delete e (subscribers st t k) else subscribers st t k)"
  by (cases d) (auto simp: deps_delete_def subscribers_def map_get_map_set set_delete_def split: option.splits)

lemma mem_fold_deps_delete:
  "a \<in> set (subscribers (fold (deps_delete e) ds st) t k) \<longleftrightarrow>
     a \<in> set (subscribers st t k) \<and> \<not> (a = e \<and> (t, k) \<in> set ds)"
  by (induction ds arbitrary: st) (auto simp: subscribers_deps_delete set_delete_def)

lemma subscribers_upd_other [simp]:
  "subscribers (st\<lparr>edeps := x\<rparr>) = subscribers st"
  "subscribers (st\<lparr>runlog := r\<rparr>) = subscribers st"
  "subscribers (st\<lparr>activeEffect := a\<rparr>) = subscribers st"
  "subscribers (st\<lparr>effectStack := s\<rparr>) = subscribers st"
  "subscribers (st\<lparr>heap := h\<rparr>) = subscribers st"
  "subscribers (st\<lparr>console := c\<rparr>) = subscribers st"
  "subscribers (st\<lparr>jobQueue := j\<rparr>) = subscribers st"
  "subscribers (st\<lparr>isFlushing := f\<rparr>) = subscribers st"
  "subscribers (st\<lparr>microtasks := m\<rparr>) = subscribers st"
  "subscribers (st\<lparr>tracklog := tlg\<rparr>) = subscribers st"
  by (simp_all add: subscribers_def fun_eq_iff)

lemma mem_subscribers_cleanup:
  "a \<in> set (subscribers (cleanup e st) t k) \<longleftrightarrow>
     a \<in> set (subscribers st t k) \<and> \<not> (a = e \<and> (t, k) \<in> set (edeps st e))"
  by (simp add: cleanup_def mem_fold_deps_delete)

lemma fold_deps_delete_fields:
  "runlog (fold (deps_delete e) ds st) = runlog st"
  "tracklog (fold (deps_delete e) ds st) = tracklog st"
  "activeEffect (fold (deps_delete e) ds st) = activeEffect st"
  "effectStack (fold (deps_delete e) ds st) = effectStack st"
  "heap (fold (deps_delete e) ds st) = heap st"
  "jobQueue (fold (deps_delete e) ds st) = jobQueue st"
  "edeps (fold (deps_delete e) ds st) = edeps st"
  by (induction ds arbitrary: st; simp add: deps_delete_def split: option.splits)+

lemma cleanup_fields [simp]:
  "runlog (cleanup e st) = runlog st"
  "tracklog (cleanup e st) = tracklog st"
  "activeEffect (cleanup e st) = activeEffect st"
  "effectStack (cleanup e st) = effectStack st"
  "heap (cleanup e st) = heap st"
  "jobQueue (cleanup e st) = jobQueue st"
  by (simp_all add: cleanup_def fold_deps_delete_fields)

lemma track_fields [simp]:
  "runlog (track t k st) = runlog st"
  "activeEffect (track t k st) = activeEffect st"
  "effectStack (track t k st) = effectStack st"
  "heap (track t k st) = heap st"
  "jobQueue (track t k st) = jobQueue st"
  "tracklog (track t k st) = (case activeEffect st of None \<Rightarrow> tracklog st | Some a \<Rightarrow> tracklog st @ [(a, t, k)])"
  by (simp_all add: track_def Let_def split: option.splits)

lemma frame_refl [simp]: "frame st st"
  by (simp add: frame_def)

lemma frame_trans:
  assumes "frame a b" and "frame b c"
  shows "frame a c"
proof -
  from assms(1) obtain r1 t1 where
    1: "effectStack b = effectStack a" "activeEffect b = activeEffect a"
       "runlog b = runlog a @ r1" "tracklog b = tracklog a @ t1"
       "\<forall>x. x \<notin> set r1 \<longrightarrow>
           (\<forall>t k. x \<in> set (subscribers b t k)
                    \<longleftrightarrow> x \<in> set (subscribers a t k) \<or> (x, t, k) \<in> set t1) \<and>
           (Some x \<noteq> activeEffect a \<longrightarrow> (\<forall>t k. (x, t, k) \<notin> set t1))"
    unfolding frame_def by blast
  from assms(2) obtain r2 t2 where
    2: "effectStack c = effectStack b" "activeEffect c = activeEffect b"
       "runlog c = runlog b @ r2" "tracklog c = tracklog b @ t2"
       "\<forall>x. x \<notin> set r2 \<longrightarrow>
           (\<forall>t k. x \<in> set (subscribers c t k)
                    \<longleftrightarrow> x \<in> set (subscribers b t k) \<or> (x, t, k) \<in> set t2) \<and>
           (Some x \<noteq> activeEffect b \<longrightarrow> (\<forall>t k. (x, t, k) \<notin> set t2))"
    unfolding frame_def by blast
  have "runlog c = runlog a @ (r1 @ r2)" "tracklog c = tracklog a @ (t1 @ t2)"
    using 1 2 by simp_all
  moreover have "\<forall>x. x \<notin> set (r1 @ r2) \<longrightarrow>
           (\<forall>t k. x \<in> set (subscribers c t k)
                    \<longleftrightarrow> x \<in> set (subscribers a t k) \<or> (x, t, k) \<in> set (t1 @ t2)) \<and>
           (Some x \<noteq> activeEffect a \<longrightarrow> (\<forall>t k. (x, t, k) \<notin> set (t1 @ t2)))"
    using 1(2,5) 2(5) by auto
  ultimately show ?thesis
    unfolding frame_def using 1(1,2) 2(1,2) by metis
qed

lemma frame_wf: "frame st st' \<Longrightarrow> wf_stack st \<Longrightarrow> wf_stack st'"
  by (simp add: frame_def wf_stack_def)

lemma frame_same:
  assumes "effectStack st' = effectStack st" "activeEffect st' = activeEffect st"
    "runlog st' = runlog st" "tracklog st' = tracklog st" "bucket st' = bucket st"
  shows "frame st st'"
proof -
  have "subscribers st' = subscribers st"
    using assms(5) by (simp add: subscribers_def fun_eq_iff)
  then show ?thesis
    unfolding frame_def using assms(1-4) by (intro conjI exI[of _ "[]"]) simp_all
qed

lemma frame_track: "frame st (track t k st)"
proof (cases "activeEffect st")
  case None
  then show ?thesis by (simp add: track_def)
next
  case (Some a)
  have "\<exists>rl tlg. runlog (track t k st) = runlog st @ rl
          \<and> tracklog (track t k st) = tracklog st @ tlg \<and>
        (\<forall>a. a \<notin> set rl \<longrightarrow>
           (\<forall>t' k'. a \<in> set (subscribers (track t k st) t' k')
                    \<longleftrightarrow> a \<in> set (subscribers st t' k') \<or> (a, t', k') \<in> set tlg) \<and>
           (Some a \<noteq> activeEffect st \<longrightarrow> (\<forall>t' k'. (a, t', k') \<notin> set tlg)))"
    apply (rule exI[of _ "[]"])
    apply (rule exI[of _ "[(a, t, k)]"])
    using Some by (auto simp: subscribers_track set_add_def)
  then show ?thesis
    unfolding frame_def by simp
qed

lemma run_frame_frame: "run_frame x st st' \<Longrightarrow> wf_stack st \<Longrightarrow> frame st st'"
  unfolding run_frame_def frame_def wf_stack_def
  apply (elim conjE exE)
  subgoal for rl tlg
    apply (intro conjI)
      apply simp
     apply simp
    apply (rule exI[of _ "x # rl"], rule exI[of _ tlg])
    apply auto
    done
  done

lemma define_property_heap_only:
  "define_property r k v st = Inr st1 \<Longrightarrow> \<exists>h. st1 = st\<lparr>heap := h\<rparr>"
  by (auto simp: define_property_def Let_def split: if_splits option.splits)

lemma define_property_frame: "define_property r k v st = Inr st1 \<Longrightarrow> frame st st1"
  by (drule define_property_heap_only) (auto intro: frame_same)

lemma Reflect_set_frame: "Reflect_set t k v rcv st = Inr (res, st1) \<Longrightarrow> frame st st1"
  by (auto simp: Reflect_set_def split: sum.splits dest: define_property_frame)

lemma Reflect_deleteProperty_frame: "Reflect_deleteProperty t k st = (res, st1) \<Longrightarrow> frame st st1"
  by (auto simp: Reflect_deleteProperty_def Let_def split: if_splits intro: frame_same)

lemma warn_readonly_frame: "warn_readonly k st = Inr st1 \<Longrightarrow> frame st st1"
  by (auto simp: warn_readonly_def split: sum.splits intro: frame_same)

lemma get_trap_frame: "get_trap p k st = (r, st1) \<Longrightarrow> frame st st1"
  by (cases p) (auto simp: Let_def frame_track split: if_splits val.splits)

lemma has_trap_frame: "has_trap p k st = (r, st1) \<Longrightarrow> frame st st1"
  by (cases p) (auto simp: Let_def frame_track)

lemma ownKeys_trap_frame: "frame st (ownKeys_trap p st)"
  by (cases p) (auto simp: frame_track)

lemma run_all_frame:
  assumes R: "runner_ok R"
    and ns: "no_scheduler P"
  shows "wf_stack st \<Longrightarrow> run_all R P effs st = Inr st' \<Longrightarrow> frame st st'"
proof (induction effs arbitrary: st)
  case Nil
  then show ?case by simp
next
  case (Cons e es)
  from Cons.prems(2) ns obtain s1 where 1: "R e st = Inr s1" and 2: "run_all R P es s1 = Inr st'"
    by (auto simp: no_scheduler_def split: sum.splits)
  have "run_frame e st s1" using R 1 by (simp add: runner_ok_def)
  then have f1: "frame st s1" using Cons.prems(1) by (rule run_frame_frame)
  have "frame s1 st'" using Cons.IH[OF frame_wf[OF f1 Cons.prems(1)] 2] .
  with f1 show ?case by (rule frame_trans)
qed

lemma trigger_frame:
  assumes R: "runner_ok R"
    and ns: "no_scheduler P"
  shows "wf_stack st \<Longrightarrow> trigger R P t k ty v st = Inr st' \<Longrightarrow> frame st st'"
  by (auto simp: trigger_def split: option.splits sum.splits intro: run_all_frame[OF R ns])

lemma trigger_basic_frame:
  assumes R: "runner_ok R"
    and ns: "no_scheduler P"
  shows "wf_stack st \<Longrightarrow> trigger_basic R P t k st = Inr st' \<Longrightarrow> frame st st'"
  by (auto simp: trigger_basic_def split: option.splits sum.splits intro: run_all_frame[OF R ns])

lemma set_trap_frame:
  assumes R: "runner_ok R"
    and ns: "no_scheduler P"
    and wf: "wf_stack st"
    and ok: "set_trap R P p k v rcv st = Inr (res, st')"
  shows "frame st st'"
proof (cases p)
  case (Reactive t sh ro)
  show ?thesis
  proof (cases ro)
    case True
    with ok Reactive show ?thesis
      by (auto split: sum.splits dest: warn_readonly_frame)
  next
    case False
    from ok Reactive False obtain ty r1 s1 rr s2 where
      a: "Reflect_set t k v rcv st = Inr (r1, s1)" and
      b: "get_trap rcv (KStr ''raw'') s1 = (rr, s2)" and
      c: "trigger R P t k ty v s2 = Inr st' \<or> st' = s2"
      by (auto simp: Let_def split: sum.splits prod.splits if_splits)
    have f1: "frame st s1" using a by (rule Reflect_set_frame)
    have f2: "frame s1 s2" using b by (rule get_trap_frame)
    have f12: "frame st s2" using f1 f2 by (rule frame_trans)
    have "frame s2 st'"
      using c trigger_frame[OF R ns frame_wf[OF f12 wf]] by auto
    with f12 show ?thesis by (rule frame_trans)
  qed
next
  case (Basic t)
  from ok Basic obtain s1 where
    a: "define_property t k v st = Inr s1" and b: "trigger_basic R P t k s1 = Inr st'"
    by (auto split: sum.splits)
  have f1: "frame st s1" using a by (rule define_property_frame)
  have "frame s1 st'" using trigger_basic_frame[OF R ns frame_wf[OF f1 wf] b] .
  with f1 show ?thesis by (rule frame_trans)
qed

lemma deleteProperty_trap_frame:
  assumes R: "runner_ok R"
    and ns: "no_scheduler P"
    and wf: "wf_stack st"
    and ok: "deleteProperty_trap R P p k st = Inr (res, st')"
  shows "frame st st'"
proof (cases p)
  case (Reactive t sh ro)
  show ?thesis
  proof (cases ro)
    case True
    with ok Reactive show ?thesis
      by (auto split: sum.splits dest: warn_readonly_frame)
  next
    case False
    from ok Reactive False obtain r1 s1 where
      a: "Reflect_deleteProperty t k st = (r1, s1)" and
      c: "trigger R P t k DELETE VUndef s1 = Inr st' \<or> st' = s1"
      by (auto simp: Let_def split: sum.splits prod.splits if_splits)
    have f1: "frame st s1" using a by (rule Reflect_deleteProperty_frame)
    have "frame s1 st'"
      using c trigger_frame[OF R ns frame_wf[OF f1 wf]] by auto
    with f1 show ?thesis by (rule frame_trans)
  qed
next
  case (Basic t)
  with ok show ?thesis
    by (auto dest: Reflect_deleteProperty_frame)
qed

lemma drop_result_Inr: "drop_result r = Inr st' \<Longrightarrow> \<exists>b. r = Inr (b, st')"
  by (auto simp: drop_result_def split: sum.splits)

lemma exec_frame:
  shows "runner_ok R \<Longrightarrow> no_scheduler P \<Longrightarrow> wf_stack st \<Longrightarrow> exec_op R P c st = Inr st'
           \<Longrightarrow> frame st st'"
    and "runner_ok R \<Longrightarrow> no_scheduler P \<Longrightarrow> wf_stack st \<Longrightarrow> exec_ops R P cs st = Inr st'
           \<Longrightarrow> frame st st'"
proof (induction R P c st and R P cs st arbitrary: st' and st' rule: exec_op_exec_ops.induct)
  case (1 run P p k st)
  then show ?case by (auto intro: get_trap_frame[OF surjective_pairing])
next
  case (2 run P p k v st)
  then show ?case
    by (auto dest!: drop_result_Inr intro: set_trap_frame)
next
  case (3 run P p k st)
  obtain old s1 where g: "get_trap p k st = (old, s1)" by (cases "get_trap p k st")
  have f1: "frame st s1" using g by (rule get_trap_frame)
  from 3(4) g obtain b where "set_trap run P p k (incremented old) p s1 = Inr (b, st')"
    by (auto dest!: drop_result_Inr)
  then have "frame s1 st'"
    using set_trap_frame[OF 3(1) 3(2) frame_wf[OF f1 3(3)]] by blast
  with f1 show ?case by (rule frame_trans)
next
  case (4 run P p k st)
  then show ?case by (auto intro: has_trap_frame[OF surjective_pairing])
next
  case (5 run P p st)
  then show ?case by (auto intro: ownKeys_trap_frame)
next
  case (6 run P p k st)
  then show ?case
    by (auto dest!: drop_result_Inr intro: deleteProperty_trap_frame)
next
  case (7 run P p k a b st)
  obtain c s1 where g: "get_trap p k st = (c, s1)" by (cases "get_trap p k st")
  have f1: "frame st s1" using g by (rule get_trap_frame)
  have w1: "wf_stack s1" using f1 7(5) by (rule frame_wf)
  have "frame s1 st'"
  proof (cases "truthy c")
    case True
    with 7(6) g have "exec_ops run P a s1 = Inr st'" by simp
    from 7(1)[OF g[symmetric] True 7(3) 7(4) w1 this] show ?thesis .
  next
    case False
    with 7(6) g have "exec_ops run P b s1 = Inr st'" by simp
    from 7(2)[OF g[symmetric] False 7(3) 7(4) w1 this] show ?thesis .
  qed
  with f1 show ?case by (rule frame_trans)
next
  case (8 run P st)
  then show ?case by simp
next
  case (9 run P c cs st)
  from 9(6) obtain s1 where a: "exec_op run P c st = Inr s1" and b: "exec_ops run P cs s1 = Inr st'"
    by (auto split: sum.splits)
  have f1: "frame st s1" using 9(1)[OF 9(3) 9(4) 9(5) a] .
  have "frame s1 st'" using 9(2)[OF a 9(3) 9(4) frame_wf[OF f1 9(5)] b] .
  with f1 show ?case by (rule frame_trans)
qed

lemma effectFn_body:
  assumes "effectFn R P e st = Inr st'"
  obtains s3 where
    "exec_ops R P (body P e)
       ((cleanup e (st\<lparr>runlog := runlog st @ [e]\<rparr>))
          \<lparr>activeEffect := Some e, effectStack := effectStack st @ [e]\<rparr>) = Inr s3"
    "st' = s3\<lparr>effectStack := butlast (effectStack s3),
              activeEffect := (if butlast (effectStack s3) = [] then None
                               else Some (last (butlast (effectStack s3))))\<rparr>"
  using assms by (auto simp: effectFn_def Let_def split: sum.splits)

lemma effectFn_run_frame:
  assumes R: "runner_ok R" and ns: "no_scheduler P" and ok: "effectFn R P e st = Inr st'"
  shows "run_frame e st st'"
proof -
  define s2 where "s2 = (cleanup e (st\<lparr>runlog := runlog st @ [e]\<rparr>))
          \<lparr>activeEffect := Some e, effectStack := effectStack st @ [e]\<rparr>"
  from ok obtain s3 where
    b: "exec_ops R P (body P e) s2 = Inr s3" and
    e: "st' = s3\<lparr>effectStack := butlast (effectStack s3),
              activeEffect := (if butlast (effectStack s3) = [] then None
                               else Some (last (butlast (effectStack s3))))\<rparr>"
    unfolding s2_def by (rule effectFn_body)
  have w2: "wf_stack s2" by (simp add: s2_def wf_stack_def)
  have "frame s2 s3" using exec_frame(2)[OF R ns w2 b] .
  then obtain rl tlg where
    f: "effectStack s3 = effectStack s2" "activeEffect s3 = activeEffect s2"
       "runlog s3 = runlog s2 @ rl" "tracklog s3 = tracklog s2 @ tlg"
       "\<forall>a. a \<notin> set rl \<longrightarrow>
           (\<forall>t k. a \<in> set (subscribers s3 t k)
                    \<longleftrightarrow> a \<in> set (subscribers s2 t k) \<or> (a, t, k) \<in> set tlg) \<and>
           (Some a \<noteq> activeEffect s2 \<longrightarrow> (\<forall>t k. (a, t, k) \<notin> set tlg))"
    unfolding frame_def by blast
  have s2f: "effectStack s2 = effectStack st @ [e]" "activeEffect s2 = Some e"
    "runlog s2 = runlog st @ [e]" "tracklog s2 = tracklog st"
    by (simp_all add: s2_def)
  have sub2: "\<And>a t k. a \<noteq> e \<Longrightarrow>
      a \<in> set (subscribers s2 t k) \<longleftrightarrow> a \<in> set (subscribers st t k)"
    by (simp add: s2_def mem_subscribers_cleanup)
  have "\<exists>rl tlg. runlog st' = runlog st @ e # rl \<and> tracklog st' = tracklog st @ tlg \<and>
        (\<forall>a. a \<noteq> e \<and> a \<notin> set rl \<longrightarrow>
           (\<forall>t k. a \<in> set (subscribers st' t k) \<longleftrightarrow> a \<in> set (subscribers st t k)) \<and>
           (\<forall>t k. (a, t, k) \<notin> set tlg))"
    apply (rule exI[of _ rl], rule exI[of _ tlg])
    using f(3,4,5) s2f sub2 by (auto simp: e)
  then show ?thesis
    unfolding run_frame_def using f(1) s2f(1) by (simp add: e)
qed

lemma run_effect_ok: "no_scheduler P \<Longrightarrow> runner_ok (run_effect n P)"
proof (induction n)
  case 0
  then show ?case by (simp add: runner_ok_def)
next
  case (Suc n)
  then show ?case
    unfolding runner_ok_def by (auto intro: effectFn_run_frame simp: runner_ok_def)
qed

lemma ran_between_append: "runlog st' = runlog st @ rl \<Longrightarrow> ran_between st st' = rl"
  by (simp add: ran_between_def)

lemma tracked_between_append: "tracklog st' = tracklog st @ tlg \<Longrightarrow> tracked_between st st' = tlg"
  by (simp add: tracked_between_def)


section \<open>The notify set and the write trap\<close>

lemma trigger_notify_set:
  "trigger R P t k ty v st =
     (case notify_set st t k ty v of Inl err \<Rightarrow> Inl err | Inr effs \<Rightarrow> run_all R P effs st)"
  by (simp add: trigger_def notify_set_def split: option.splits)

lemma guard_same_value:
  "(\<not> strict_eq a b \<and> (strict_eq a a \<or> strict_eq b b)) \<longleftrightarrow> \<not> same_value a b"
  by (cases a; cases b) (auto simp: same_value_def)

lemma set_trap_mutable:
  "set_trap R P (createReactive t sh False) k v (createReactive t' sh' ro') st =
     (case set_type st t k of
        Inl err \<Rightarrow> Inl err
      | Inr ty \<Rightarrow>
          (case Reflect_set t k v (createReactive t' sh' ro') st of
             Inl err \<Rightarrow> Inl err
           | Inr (res, s1) \<Rightarrow>
               if t' = t \<and> \<not> same_value (get_prop st t k) v
               then (case trigger R P t k ty v s1 of
                       Inl err \<Rightarrow> Inl err
                     | Inr s2 \<Rightarrow> Inr (res, s2))
               else Inr (res, s1)))"
  by (auto simp: createReactive_def Let_def guard_same_value split: sum.splits)

lemma set_add_set [simp]: "set (set_add e xs) = insert e (set xs)"
  by (auto simp: set_add_def)

lemma set_add_distinct [simp]: "distinct xs \<Longrightarrow> distinct (set_add e xs)"
  by (auto simp: set_add_def)

lemma foldl_add_set:
  "set (foldl (\<lambda>r e. if Some e \<noteq> act then set_add e r else r) acc es)
     = set acc \<union> {e \<in> set es. Some e \<noteq> act}"
  by (induction es arbitrary: acc) auto


lemma add_effects_set:
  "set (add_effects act effs acc)
     = set acc \<union> (case effs of None \<Rightarrow> {} | Some es \<Rightarrow> {e \<in> set es. Some e \<noteq> act})"
  by (simp add: add_effects_def foldl_add_set split: option.splits)


lemma length_scan_mono:
  "length_scan act v m acc = Inr r \<Longrightarrow> set acc \<subseteq> set r"
  by (induction act v m acc rule: length_scan.induct)
     (auto simp: add_effects_set split: sum.splits if_splits)



lemma key_ge_error: "key_ge k v = Inl err \<Longrightarrow> err = TypeError"
  by (cases "(k, v)" rule: key_ge.cases) auto

lemma length_scan_symbol:
  "(KSym n, es) \<in> set m \<Longrightarrow> length_scan act v m acc = Inl TypeError"
  by (induction act v m acc rule: length_scan.induct)
     (auto split: sum.splits dest: key_ge_error)

lemma subscribers_entry:
  assumes "c \<in> set (subscribers st t k)"
  shows "\<exists>depsMap es. bucket st t = Some depsMap \<and> map_get depsMap k = Some es \<and> c \<in> set es
        \<and> (k, es) \<in> set depsMap"
proof (cases "bucket st t")
  case None
  with assms show ?thesis by (simp add: subscribers_def)
next
  case (Some depsMap)
  show ?thesis
  proof (cases "map_of depsMap k")
    case None
    with assms Some show ?thesis by (simp add: subscribers_def map_get_def)
  next
    case es: (Some es)
    with assms Some have "c \<in> set es" by (simp add: subscribers_def map_get_def)
    moreover have "(k, es) \<in> set depsMap" using es by (rule map_of_SomeD)
    ultimately show ?thesis using Some es by (simp add: map_get_def)
  qed
qed

lemma notify_set_key:
  assumes "notify_set st t k ty v = Inr effs" "c \<in> set (subscribers st t k)"
    "activeEffect st \<noteq> Some c"
  shows "c \<in> set effs"
proof -
  from subscribers_entry[OF assms(2)] obtain depsMap es where
    d: "bucket st t = Some depsMap" "map_get depsMap k = Some es" "c \<in> set es" by blast
  have c1: "c \<in> set (add_effects (activeEffect st) (map_get depsMap k) [])"
    using d assms(3) by (auto simp: add_effects_set)
  from assms(1) d(1) have e: "effectsToRun st t k ty v depsMap = Inr effs"
    by (simp add: notify_set_def)
  then show ?thesis
    using c1 unfolding effectsToRun_def Let_def
    by (auto simp: add_effects_set split: if_splits dest!: length_scan_mono)
qed





lemma define_property_is_array:
  "define_property r k v st = Inr st1 \<Longrightarrow> is_array (heap st1 r') = is_array (heap st r')"
  by (auto simp: define_property_def Let_def split: if_splits option.splits)

lemma Reflect_set_fields:
  assumes "Reflect_set t k v rcv st = Inr (res, s1)"
  shows "res = True" "bucket s1 = bucket st" "activeEffect s1 = activeEffect st"
    "effectStack s1 = effectStack st" "runlog s1 = runlog st" "tracklog s1 = tracklog st"
    "jobQueue s1 = jobQueue st" "edeps s1 = edeps st"
    "is_array (heap s1 r') = is_array (heap st r')"
  using assms
  by (auto simp: Reflect_set_def split: sum.splits
           dest: define_property_heap_only define_property_is_array)


lemma subscribers_cong: "bucket s1 = bucket st \<Longrightarrow> subscribers s1 = subscribers st"
  by (simp add: subscribers_def fun_eq_iff)








section \<open>Scheduled effects\<close>

lemma queue_grows_refl [simp]: "queue_grows st st"
  by (simp add: queue_grows_def)







lemma track_jobQueue_runlog: "jobQueue (track t k st) = jobQueue st" "runlog (track t k st) = runlog st"
  by simp_all









lemma queue_grows_step:
  "jobQueue s1 = jobQueue st \<Longrightarrow> runlog s1 = runlog st
     \<Longrightarrow> queue_grows s1 st' \<and> runlog st' = runlog s1
     \<Longrightarrow> queue_grows st st' \<and> runlog st' = runlog st"
  by (simp add: queue_grows_def)





section \<open>A computation that writes what it reads\<close>

lemma same_context_refl [simp]: "same_context st st"
  by (simp add: same_context_def)



















lemma length_scan_subset:
  "length_scan act v m acc = Inr r \<Longrightarrow> set r \<subseteq> set acc \<union> {e. Some e \<noteq> act}"
  by (induction act v m acc rule: length_scan.induct)
     (auto simp: add_effects_set split: sum.splits if_splits)

lemma notify_set_excludes_active:
  assumes "notify_set st t k ty v = Inr effs" "activeEffect st = Some c"
  shows "c \<notin> set effs"
proof -
  have "set effs \<subseteq> {e. Some e \<noteq> activeEffect st}"
    using assms(1)
    by (auto simp: notify_set_def effectsToRun_def Let_def add_effects_set
             split: option.splits if_splits dest!: length_scan_subset)
  with assms(2) show ?thesis by auto
qed
















text \<open>Two effects that increment the key they read.\<close>

lemma define_property_value:
  "define_property r k v st = Inr s1 \<Longrightarrow> k \<noteq> KStr ''length'' \<Longrightarrow> get_prop s1 r k = v"
  by (auto simp: define_property_def Let_def get_prop_def split: if_splits option.splits)

lemma define_property_total:
  "k \<noteq> KStr ''length'' \<Longrightarrow> \<exists>s1. define_property r k v st = Inr s1"
  by (auto simp: define_property_def Let_def split: option.splits)

lemma set_type_total: "\<exists>ty. set_type st t (KStr s) = Inr ty"
  by (simp add: set_type_def)

lemma notify_set_other_key:
  "k \<noteq> KStr ''length'' \<Longrightarrow> \<exists>effs. notify_set st t k ty v = Inr effs"
  by (simp add: notify_set_def effectsToRun_def Let_def split: option.splits)

lemma incrementers_overflow:
  "y \<noteq> x \<Longrightarrow> y \<in> set (subscribers st 0 (KStr ''foo''))
     \<Longrightarrow> get_prop st 0 (KStr ''foo'') = VNum v
     \<Longrightarrow> run_effect n (plain_prog incr_body) x st = Inl StackOverflow"
proof (induction n arbitrary: x y st v)
  case 0
  then show ?case by simp
next
  case (Suc n)
  let ?P = "plain_prog incr_body"
  let ?R = "run_effect n ?P"
  let ?p = "createReactive 0 False False"
  let ?k = "KStr ''foo''"
  define s2 where "s2 = (cleanup x (st\<lparr>runlog := runlog st @ [x]\<rparr>))
          \<lparr>activeEffect := Some x, effectStack := effectStack st @ [x]\<rparr>"
  define s3 where "s3 = track 0 ?k s2"
  have a2: "activeEffect s2 = Some x" by (simp add: s2_def)
  have v2: "get_prop s2 0 ?k = VNum v"
    using Suc.prems(3) by (simp add: s2_def get_prop_def)
  have y2: "y \<in> set (subscribers s2 0 ?k)"
    using Suc.prems(1,2) by (simp add: s2_def mem_subscribers_cleanup)
  have a3: "activeEffect s3 = Some x" by (simp add: s3_def a2)
  have v3: "get_prop s3 0 ?k = VNum v" using v2 by (simp add: s3_def get_prop_def)
  have sub3: "x \<in> set (subscribers s3 0 ?k)" "y \<in> set (subscribers s3 0 ?k)"
    using y2 a2 by (simp_all add: s3_def subscribers_track)
  have g: "get_trap (reactive 0) ?k s2 = (GVal (VNum v), s3)"
    using v3 by (simp add: reactive_def createReactive_def Let_def s3_def Reflect_get_def)
  obtain ty where ty: "set_type s3 0 ?k = Inr ty" using set_type_total by blast
  obtain s4 where dp: "define_property 0 ?k (VNum (v + 1)) s3 = Inr s4"
    using define_property_total[of ?k 0 "VNum (v + 1)" s3] by auto
  then have rs: "Reflect_set 0 ?k (VNum (v + 1)) ?p s3 = Inr (True, s4)"
    by (simp add: Reflect_set_def createReactive_def)
  note f = Reflect_set_fields[OF rs]
  have v4: "get_prop s4 0 ?k = VNum (v + 1)" using define_property_value[OF dp] by simp
  obtain effs where e: "notify_set s4 0 ?k ty (VNum (v + 1)) = Inr effs"
    using notify_set_other_key[of ?k s4 0 ty "VNum (v + 1)"] by auto
  have yin: "y \<in> set effs"
    using notify_set_key[OF e] sub3(2) a3 Suc.prems(1)
    by (simp add: subscribers_cong[OF f(2)] f(3))
  have xout: "x \<notin> set effs"
    using notify_set_excludes_active[OF e] a3 by (simp add: f(3))
  from yin obtain e1 rest where effs: "effs = e1 # rest" by (cases effs) auto
  with xout have "x \<noteq> e1" by auto
  moreover have "x \<in> set (subscribers s4 0 ?k)"
    using sub3(1) by (simp add: subscribers_cong[OF f(2)])
  ultimately have "?R e1 s4 = Inl StackOverflow"
    using Suc.IH[of x e1 s4 "v + 1"] v4 by simp
  then have "trigger ?R ?P 0 ?k ty (VNum (v + 1)) s4 = Inl StackOverflow"
    by (simp add: trigger_notify_set e effs plain_prog_def)
  then have "set_trap ?R ?P ?p ?k (VNum (v + 1)) ?p s3 = Inl StackOverflow"
    using ty rs v3 by (simp add: set_trap_mutable same_value_def)
  then have "exec_ops ?R ?P (body ?P x) s2 = Inl StackOverflow"
    using g by (simp add: plain_prog_def incr_body_def reactive_def drop_result_def)
  then show ?case
    by (simp add: effectFn_def Let_def s2_def[symmetric])
qed

section \<open>Truncation: what the assignment of a length runs\<close>









section \<open>The invariants of the store and of the stack are kept\<close>

text \<open>
  The hypotheses \<open>wf_stack\<close> and \<open>deps_cover\<close> of the theorems below are invariants of
  the program: they hold in the initial state, and every run of an effect function and
  every operation that returns keeps them (in a program without schedulers).
\<close>

lemma all_cover_cong:
  "bucket s' = bucket s \<Longrightarrow> edeps s' = edeps s \<Longrightarrow> all_cover s \<Longrightarrow> all_cover s'"
proof -
  assume b: "bucket s' = bucket s" and e: "edeps s' = edeps s" and c: "all_cover s"
  have "subscribers s' = subscribers s" using b by (rule subscribers_cong)
  with e c show ?thesis by (simp add: all_cover_def deps_cover_def)
qed

lemma track_edeps:
  "edeps (track t k st) =
     (case activeEffect st of None \<Rightarrow> edeps st
      | Some a \<Rightarrow> (edeps st)(a := edeps st a @ [(t, k)]))"
  by (simp add: track_def Let_def split: option.splits)

lemma all_cover_track: "all_cover st \<Longrightarrow> all_cover (track t k st)"
  by (auto simp: all_cover_def deps_cover_def subscribers_track track_edeps set_add_def
           split: option.splits if_splits)

lemma cleanup_edeps: "edeps (cleanup x st) = (edeps st)(x := [])"
  by (simp add: cleanup_def)

lemma all_cover_cleanup: "all_cover st \<Longrightarrow> all_cover (cleanup x st)"
  by (auto simp: all_cover_def deps_cover_def mem_subscribers_cleanup cleanup_edeps)

lemma define_property_store:
  "define_property r k v st = Inr s1 \<Longrightarrow> bucket s1 = bucket st \<and> edeps s1 = edeps st"
  by (drule define_property_heap_only) auto

lemma all_cover_get_trap: "get_trap p k st = (r, s1) \<Longrightarrow> all_cover st \<Longrightarrow> all_cover s1"
  by (cases p) (auto simp: Let_def all_cover_track split: if_splits val.splits)

lemma all_cover_has_trap: "has_trap p k st = (r, s1) \<Longrightarrow> all_cover st \<Longrightarrow> all_cover s1"
  by (cases p) (auto simp: Let_def all_cover_track)

lemma all_cover_ownKeys: "all_cover st \<Longrightarrow> all_cover (ownKeys_trap p st)"
  by (cases p) (auto simp: all_cover_track)

lemma all_cover_define_property:
  "define_property r k v st = Inr s1 \<Longrightarrow> all_cover st \<Longrightarrow> all_cover s1"
  using all_cover_cong define_property_store by blast

lemma all_cover_Reflect_set:
  "Reflect_set t k v rcv st = Inr (res, s1) \<Longrightarrow> all_cover st \<Longrightarrow> all_cover s1"
  by (auto simp: Reflect_set_def split: sum.splits dest: all_cover_define_property)

lemma all_cover_Reflect_deleteProperty:
  "Reflect_deleteProperty t k st = (res, s1) \<Longrightarrow> all_cover st \<Longrightarrow> all_cover s1"
  by (auto simp: Reflect_deleteProperty_def Let_def split: if_splits elim: all_cover_cong[rotated 2])

lemma all_cover_warn: "warn_readonly k st = Inr s1 \<Longrightarrow> all_cover st \<Longrightarrow> all_cover s1"
  by (auto simp: warn_readonly_def split: sum.splits elim: all_cover_cong[rotated 2])

lemma all_cover_run_all:
  "runner_covers R \<Longrightarrow> no_scheduler P \<Longrightarrow> run_all R P effs st = Inr st' \<Longrightarrow> all_cover st
     \<Longrightarrow> all_cover st'"
proof (induction effs arbitrary: st)
  case Nil
  then show ?case by simp
next
  case (Cons e es)
  from Cons.prems(2,3) obtain s1 where 1: "R e st = Inr s1" and 2: "run_all R P es s1 = Inr st'"
    by (auto simp: no_scheduler_def split: sum.splits)
  from Cons.prems(1) 1 Cons.prems(4) have "all_cover s1" by (auto simp: runner_covers_def)
  from Cons.IH[OF Cons.prems(1,2) 2 this] show ?case .
qed

lemma all_cover_trigger:
  "runner_covers R \<Longrightarrow> no_scheduler P \<Longrightarrow> trigger R P t k ty v st = Inr st' \<Longrightarrow> all_cover st
     \<Longrightarrow> all_cover st'"
  by (auto simp: trigger_def split: option.splits sum.splits dest: all_cover_run_all)

lemma all_cover_trigger_basic:
  "runner_covers R \<Longrightarrow> no_scheduler P \<Longrightarrow> trigger_basic R P t k st = Inr st' \<Longrightarrow> all_cover st
     \<Longrightarrow> all_cover st'"
  by (auto simp: trigger_basic_def split: option.splits sum.splits dest: all_cover_run_all)

lemma all_cover_set_trap:
  assumes R: "runner_covers R" and ns: "no_scheduler P"
    and ok: "set_trap R P p k v rcv st = Inr (res, st')" and c: "all_cover st"
  shows "all_cover st'"
proof (cases p)
  case (Reactive t sh ro)
  show ?thesis
  proof (cases ro)
    case True
    with ok Reactive c show ?thesis
      by (auto split: sum.splits dest: all_cover_warn)
  next
    case False
    from ok Reactive False obtain ty r1 s1 rr s2 where
      a: "Reflect_set t k v rcv st = Inr (r1, s1)" and
      b: "get_trap rcv (KStr ''raw'') s1 = (rr, s2)" and
      d: "trigger R P t k ty v s2 = Inr st' \<or> st' = s2"
      by (auto simp: Let_def split: sum.splits prod.splits if_splits)
    have "all_cover s2"
      using all_cover_get_trap[OF b all_cover_Reflect_set[OF a c]] .
    with d all_cover_trigger[OF R ns] show ?thesis by auto
  qed
next
  case (Basic t)
  from ok Basic obtain s1 where
    a: "define_property t k v st = Inr s1" and b: "trigger_basic R P t k s1 = Inr st'"
    by (auto split: sum.splits)
  from all_cover_trigger_basic[OF R ns b all_cover_define_property[OF a c]] show ?thesis .
qed

lemma all_cover_deleteProperty_trap:
  assumes R: "runner_covers R" and ns: "no_scheduler P"
    and ok: "deleteProperty_trap R P p k st = Inr (res, st')" and c: "all_cover st"
  shows "all_cover st'"
proof (cases p)
  case (Reactive t sh ro)
  show ?thesis
  proof (cases ro)
    case True
    with ok Reactive c show ?thesis
      by (auto split: sum.splits dest: all_cover_warn)
  next
    case False
    from ok Reactive False obtain r1 s1 where
      a: "Reflect_deleteProperty t k st = (r1, s1)" and
      d: "trigger R P t k DELETE VUndef s1 = Inr st' \<or> st' = s1"
      by (auto simp: Let_def split: sum.splits prod.splits if_splits)
    have "all_cover s1" using all_cover_Reflect_deleteProperty[OF a c] .
    with d all_cover_trigger[OF R ns] show ?thesis by auto
  qed
next
  case (Basic t)
  with ok c show ?thesis
    by (auto dest: all_cover_Reflect_deleteProperty)
qed

lemma all_cover_exec:
  shows "runner_covers R \<Longrightarrow> no_scheduler P \<Longrightarrow> exec_op R P c st = Inr st' \<Longrightarrow> all_cover st
           \<Longrightarrow> all_cover st'"
    and "runner_covers R \<Longrightarrow> no_scheduler P \<Longrightarrow> exec_ops R P cs st = Inr st' \<Longrightarrow> all_cover st
           \<Longrightarrow> all_cover st'"
proof (induction R P c st and R P cs st arbitrary: st' and st' rule: exec_op_exec_ops.induct)
  case (1 run P p k st)
  then show ?case by (auto intro: all_cover_get_trap[OF surjective_pairing])
next
  case (2 run P p k v st)
  then show ?case by (auto dest!: drop_result_Inr dest: all_cover_set_trap)
next
  case (3 run P p k st)
  obtain old s1 where g: "get_trap p k st = (old, s1)" by (cases "get_trap p k st")
  from 3(3) g obtain b where "set_trap run P p k (incremented old) p s1 = Inr (b, st')"
    by (auto dest!: drop_result_Inr)
  from all_cover_set_trap[OF 3(1) 3(2) this all_cover_get_trap[OF g 3(4)]] show ?case .
next
  case (4 run P p k st)
  then show ?case by (auto intro: all_cover_has_trap[OF surjective_pairing])
next
  case (5 run P p st)
  then show ?case by (auto intro: all_cover_ownKeys)
next
  case (6 run P p k st)
  then show ?case by (auto dest!: drop_result_Inr dest: all_cover_deleteProperty_trap)
next
  case (7 run P p k a b st)
  obtain c s1 where g: "get_trap p k st = (c, s1)" by (cases "get_trap p k st")
  have c1: "all_cover s1" using all_cover_get_trap[OF g 7(6)] .
  show ?case
  proof (cases "truthy c")
    case True
    with 7(5) g have "exec_ops run P a s1 = Inr st'" by simp
    from 7(1)[OF g[symmetric] True 7(3) 7(4) this c1] show ?thesis .
  next
    case False
    with 7(5) g have "exec_ops run P b s1 = Inr st'" by simp
    from 7(2)[OF g[symmetric] False 7(3) 7(4) this c1] show ?thesis .
  qed
next
  case (8 run P st)
  then show ?case by simp
next
  case (9 run P c cs st)
  from 9(5) obtain s1 where a: "exec_op run P c st = Inr s1" and b: "exec_ops run P cs s1 = Inr st'"
    by (auto split: sum.splits)
  from 9(2)[OF a 9(3) 9(4) b 9(1)[OF 9(3) 9(4) a 9(6)]] show ?case .
qed

lemma all_cover_effectFn:
  assumes R: "runner_covers R" and ns: "no_scheduler P"
    and ok: "effectFn R P e st = Inr st'" and c: "all_cover st"
  shows "all_cover st'"
proof -
  define s2 where "s2 = (cleanup e (st\<lparr>runlog := runlog st @ [e]\<rparr>))
          \<lparr>activeEffect := Some e, effectStack := effectStack st @ [e]\<rparr>"
  from ok obtain s3 where
    b: "exec_ops R P (body P e) s2 = Inr s3" and
    e: "st' = s3\<lparr>effectStack := butlast (effectStack s3),
              activeEffect := (if butlast (effectStack s3) = [] then None
                               else Some (last (butlast (effectStack s3))))\<rparr>"
    unfolding s2_def by (rule effectFn_body)
  have "all_cover (st\<lparr>runlog := runlog st @ [e]\<rparr>)"
    using c by (rule all_cover_cong[rotated 2]) simp_all
  then have "all_cover (cleanup e (st\<lparr>runlog := runlog st @ [e]\<rparr>))"
    by (rule all_cover_cleanup)
  then have "all_cover s2"
    unfolding s2_def by (rule all_cover_cong[rotated 2]) simp_all
  from all_cover_exec(2)[OF R ns b this] have "all_cover s3" .
  then show ?thesis
    unfolding e by (rule all_cover_cong[rotated 2]) simp_all
qed

lemma run_effect_covers: "no_scheduler P \<Longrightarrow> runner_covers (run_effect n P)"
proof (induction n)
  case 0
  then show ?case by (simp add: runner_covers_def)
next
  case (Suc n)
  then show ?case
    unfolding runner_covers_def by (auto intro: all_cover_effectFn simp: runner_covers_def)
qed

lemma init_sound: "wf_stack (init h) \<and> all_cover (init h)"
  by (simp add: init_def wf_stack_def all_cover_def deps_cover_def subscribers_def)

lemma run_effect_sound:
  assumes ns: "no_scheduler P" and ok: "run_effect n P x st = Inr st'"
    and s: "wf_stack st \<and> all_cover st"
  shows "wf_stack st' \<and> all_cover st'"
proof -
  from run_effect_ok[OF ns] ok have "run_frame x st st'" by (simp add: runner_ok_def)
  with s have "wf_stack st'" by (blast intro: frame_wf run_frame_frame)
  moreover from run_effect_covers[OF ns] ok s have "all_cover st'"
    by (auto simp: runner_covers_def)
  ultimately show ?thesis by simp
qed

lemma exec_op_sound:
  assumes ns: "no_scheduler P" and ok: "exec_op (run_effect n P) P c st = Inr st'"
    and s: "wf_stack st \<and> all_cover st"
  shows "wf_stack st' \<and> all_cover st'"
  using exec_frame(1)[OF run_effect_ok[OF ns] ns _ ok] all_cover_exec(1)[OF run_effect_covers[OF ns] ns ok] s
  by (blast intro: frame_wf)

section \<open>Read-only views and the dependency store\<close>

text \<open>
  Claim C1: no operation through a read-only view (read, \<open>in\<close>, key enumeration) ever
  inserts a computation into the dependency store of the view's target.

  The \<open>get\<close> trap keeps this: it tracks only when the view is not read-only. The \<open>has\<close> and
  \<open>ownKeys\<close> traps call \<open>track\<close> whatever the view is, so an effect that tests
  \<^verbatim>\<open>'foo' in ro\<close> and enumerates a shallow read-only view is subscribed both to
  \<open>foo\<close> and to \<open>ITERATE_KEY\<close> of the target.
\<close>

theorem readonly_has_ownKeys_populate_store:
  "(case run_script (Suc 0) (plain_prog readonly_reads_body) [Effect 0] (init object_foo) of
      Inl err \<Rightarrow> False
    | Inr st \<Rightarrow> subscribers st 0 (KStr ''foo'') = [0] \<and> subscribers st 0 ITERATE_KEY = [0])"
  by (simp add: eval_defs readonly_reads_body_def object_foo_def)

lemma readonly_get_never_tracks:
  "snd (get_trap (createReactive target isShallow True) k st) = st"
  by (simp add: createReactive_def Let_def split: val.split)

section \<open>Writes and same-value equality\<close>



section \<open>Truncating an array\<close>



section \<open>The flush of the job queue\<close>




section \<open>Enumeration and the kinds of mutation\<close>




section \<open>Mutating through a read-only view\<close>

text \<open>
  Claim C6: a set or a delete through a read-only view leaves the target unchanged,
  notifies nobody, does not throw and reports success.

  The warning is built with a template literal. For a symbol key the substitution
  throws a TypeError, so both traps throw before they return.
\<close>

theorem readonly_symbol_key_throws:
  "set_trap run P (createReactive target isShallow True) (KSym n) newVal receiver st
     = Inl TypeError
   \<and> deleteProperty_trap run P (createReactive target isShallow True) (KSym n) st
     = Inl TypeError"
  by (simp add: createReactive_def warn_readonly_def)

lemma readonly_string_key_isolated:
  "set_trap run P (createReactive target isShallow True) (KStr s) newVal receiver st
     = Inr (True, st\<lparr>console := console st @ [''property '' @ s @ '' is readonly'']\<rparr>)
   \<and> deleteProperty_trap run P (createReactive target isShallow True) (KStr s) st
     = Inr (True, st\<lparr>console := console st @ [''property '' @ s @ '' is readonly'']\<rparr>)"
  by (simp add: createReactive_def warn_readonly_def)

section \<open>Reentrancy\<close>




text \<open>
  With two effects \<^verbatim>\<open>() => { p.foo++ }\<close> the mutual notification does not end: whatever
  depth of nested calls is allowed, the registration of the second effect ends in a
  stack overflow.
\<close>

lemma two_incrementers_never_return:
  "run_script n (plain_prog incr_body) [Effect 0, Effect 1] (init object_foo) = Inl StackOverflow"
proof (cases n)
  case 0
  then show ?thesis by (simp add: effect_def plain_prog_def)
next
  case (Suc m)
  let ?P = "plain_prog incr_body"
  obtain s1 where s1: "effect (run_effect (Suc m) ?P) ?P 0 (init object_foo) = Inr s1"
    and sub: "0 \<in> set (subscribers s1 0 (KStr ''foo''))"
    and v: "get_prop s1 0 (KStr ''foo'') = VNum 2"
    by (simp add: eval_defs incr_body_def object_foo_def)
  let ?s = "s1\<lparr>edeps := (edeps s1)(1 := [])\<rparr>"
  have "run_effect (Suc m) ?P 1 ?s = Inl StackOverflow"
    by (rule incrementers_overflow[of 0 1 _ 2]) (use sub v in \<open>simp_all add: get_prop_def\<close>)
  then show ?thesis
    using s1 Suc by (simp add: effect_def plain_prog_def del: run_effect.simps)
qed

section \<open>Dependencies after a run\<close>

text \<open>
  Claim C8 (as amended): after a completed run of a computation during which the
  computation was not itself run again (it occurs once among the effect functions
  executed in between), the dependency sets it belongs to are exactly the
  \<open>(target, key)\<close> pairs it tracked during that run; memberships of earlier runs, which
  its \<open>deps\<close> list holds, are removed before the body executes. The program has no
  schedulers.
\<close>

theorem membership_equals_reads_of_run:
  assumes ns: "no_scheduler P"
    and cover: "deps_cover st e"
    and ok: "run_effect n P e st = Inr st'"
    and once: "count_list (ran_between st st') e = 1"
  shows "{(t, k). e \<in> set (subscribers st' t k)}
           = {(t, k). (e, t, k) \<in> set (tracked_between st st')}"
proof -
  from ok obtain m where n: "n = Suc m" by (cases n) auto
  define R where "R = run_effect m P"
  have R: "runner_ok R" unfolding R_def using ns by (rule run_effect_ok)
  define s2 where "s2 = (cleanup e (st\<lparr>runlog := runlog st @ [e]\<rparr>))
          \<lparr>activeEffect := Some e, effectStack := effectStack st @ [e]\<rparr>"
  from ok n have "effectFn R P e st = Inr st'" by (simp add: R_def)
  then obtain s3 where
    b: "exec_ops R P (body P e) s2 = Inr s3" and
    e: "st' = s3\<lparr>effectStack := butlast (effectStack s3),
              activeEffect := (if butlast (effectStack s3) = [] then None
                               else Some (last (butlast (effectStack s3))))\<rparr>"
    unfolding s2_def by (rule effectFn_body)
  have w2: "wf_stack s2" by (simp add: s2_def wf_stack_def)
  have "frame s2 s3" using exec_frame(2)[OF R ns w2 b] .
  then obtain rl tlg where
    f: "runlog s3 = runlog s2 @ rl" "tracklog s3 = tracklog s2 @ tlg"
       "\<forall>a. a \<notin> set rl \<longrightarrow>
           (\<forall>t k. a \<in> set (subscribers s3 t k)
                    \<longleftrightarrow> a \<in> set (subscribers s2 t k) \<or> (a, t, k) \<in> set tlg)"
    unfolding frame_def by blast
  have rb: "ran_between st st' = e # rl"
    by (rule ran_between_append) (simp add: e f(1) s2_def)
  have tb: "tracked_between st st' = tlg"
    by (rule tracked_between_append) (simp add: e f(2) s2_def)
  from once rb have "e \<notin> set rl" by (simp add: count_list_0_iff)
  with f(3) have m3: "\<And>t k. e \<in> set (subscribers s3 t k)
                    \<longleftrightarrow> e \<in> set (subscribers s2 t k) \<or> (e, t, k) \<in> set tlg"
    by blast
  have m2: "\<And>t k. e \<notin> set (subscribers s2 t k)"
    using cover by (auto simp: s2_def mem_subscribers_cleanup deps_cover_def)
  have "subscribers st' = subscribers s3" by (simp add: e)
  then show ?thesis
    using m3 m2 tb by simp
qed

theorem membership_equals_reads_of_run_witness:
  "no_scheduler (plain_prog branch_body) \<and> deps_cover branch_switched 0
   \<and> run_effect (Suc 0) (plain_prog branch_body) 0 branch_switched = Inr branch_rerun
   \<and> count_list (ran_between branch_switched branch_rerun) 0 = 1
   \<and> (0, KStr ''text'') \<in> {(t, k). 0 \<in> set (subscribers branch_switched t k)}
   \<and> {(t, k). 0 \<in> set (subscribers branch_rerun t k)}
       = {(t, k). (0, t, k) \<in> set (tracked_between branch_switched branch_rerun)}
   \<and> tracked_between branch_switched branch_rerun = [(0, 0, KStr ''ok'')]"
proof -
  have a: "no_scheduler (plain_prog branch_body)"
    by (simp add: no_scheduler_def plain_prog_def)
  have b: "deps_cover branch_switched 0"
    unfolding deps_cover_def branch_defs
    by (simp add: eval_defs split: if_splits)
  have c: "run_effect (Suc 0) (plain_prog branch_body) 0 branch_switched = Inr branch_rerun"
    unfolding branch_defs by (simp add: eval_defs)
  have d: "count_list (ran_between branch_switched branch_rerun) 0 = 1"
    unfolding branch_defs by (simp add: eval_defs ran_between_def)
  have e: "(0, KStr ''text'') \<in> {(t, k). 0 \<in> set (subscribers branch_switched t k)}"
    unfolding branch_defs by (simp add: eval_defs)
  have f: "tracked_between branch_switched branch_rerun = [(0, 0, KStr ''ok'')]"
    unfolding branch_defs by (simp add: eval_defs tracked_between_def)
  show ?thesis
    using membership_equals_reads_of_run[OF a b c d] a b c d e f by simp
qed

text \<open>
  The claim as stated, for every completed run, fails when the computation is run again
  inside its own run. Effect 0 reads \<open>flag\<close> and \<open>a\<close> and writes \<open>b\<close>; this runs effect 1,
  whose write of \<open>flag\<close> runs effect 0 again, nested. The nested run cleans up and reads
  \<open>flag\<close> only. When the outer run completes, it has read \<open>a\<close>, but effect 0 is not a
  member of the dependency set of \<open>a\<close>.
\<close>

theorem reentered_run_loses_its_reads:
  "run_effect (Suc (Suc (Suc 0))) (plain_prog reentry_body) 0 reentry_before = Inr reentry_after
   \<and> ran_between reentry_before reentry_after = [0, 1, 0]
   \<and> (0, 0, KStr ''a'') \<in> set (tracked_between reentry_before reentry_after)
   \<and> 0 \<notin> set (subscribers reentry_after 0 (KStr ''a''))"
  unfolding reentry_defs
  by (simp add: eval_defs ran_between_def tracked_between_def)

section \<open>The receiver of a write\<close>

text \<open>
  Claim C9: a write intercepted by a mutable view notifies only when the receiver's raw
  object is the target; a write whose receiver is a view of another target (as on a
  prototype chain) performs the assignment, on the receiver's target, and triggers
  nothing: the result is that of the assignment alone, whatever the runner.
\<close>

theorem foreign_receiver_write_is_silent:
  assumes other: "target' \<noteq> target"
    and ty: "set_type st target k = Inr ty"
    and rs: "Reflect_set target k newVal (createReactive target' isShallow' isReadonly') st
               = Inr (res, st1)"
  shows "set_trap run P (createReactive target isShallow False) k newVal
           (createReactive target' isShallow' isReadonly') st = Inr (res, st1)
         \<and> res = True \<and> hasOwnProperty st1 target' k
         \<and> (is_array (heap st target') \<and> k = KStr ''length'' \<or> get_prop st1 target' k = newVal)
         \<and> bucket st1 = bucket st \<and> runlog st1 = runlog st \<and> jobQueue st1 = jobQueue st"
proof -
  note f = Reflect_set_fields[OF rs]
  have "hasOwnProperty st1 target' k
        \<and> (is_array (heap st target') \<and> k = KStr ''length'' \<or> get_prop st1 target' k = newVal)"
    using rs
    by (auto simp: Reflect_set_def createReactive_def define_property_def Let_def
          hasOwnProperty_def get_prop_def split: sum.splits if_splits option.splits)
  then show ?thesis
    using other ty rs f(1,2,5,7) by (simp add: set_trap_mutable)
qed

theorem foreign_receiver_write_is_silent_witness:
  "(1::nat) \<noteq> 0 \<and> set_type bar_registered 0 (KStr ''bar'') = Inr SET
   \<and> subscribers bar_registered 0 (KStr ''bar'') = [0]
   \<and> get_prop bar_registered 0 (KStr ''bar'') = VNum 1
   \<and> (case set_trap (run_effect (Suc 0) (plain_prog read_bar_body)) (plain_prog read_bar_body)
             (createReactive 0 False False) (KStr ''bar'') (VNum 2)
             (createReactive 1 False False) bar_registered of
         Inl err \<Rightarrow> False
       | Inr (res, st1) \<Rightarrow>
           res \<and> get_prop st1 1 (KStr ''bar'') = VNum 2 \<and> get_prop st1 0 (KStr ''bar'') = VNum 1
           \<and> runlog st1 = runlog bar_registered \<and> bucket st1 = bucket bar_registered)"
proof -
  have other: "(1::nat) \<noteq> 0" by simp
  have ty: "set_type bar_registered 0 (KStr ''bar'') = Inr SET"
    unfolding bar_defs by (simp add: eval_defs)
  have rs: "Reflect_set 0 (KStr ''bar'') (VNum 2) (createReactive 1 False False) bar_registered
      = Inr (True, snd (projr (Reflect_set 0 (KStr ''bar'') (VNum 2)
                                (createReactive 1 False False) bar_registered)))"
    unfolding bar_defs by (simp add: eval_defs)
  have sub: "subscribers bar_registered 0 (KStr ''bar'') = [0]"
    unfolding bar_defs by (simp add: eval_defs)
  have old: "get_prop bar_registered 0 (KStr ''bar'') = VNum 1"
    unfolding bar_defs by (simp add: eval_defs)
  have v: "get_prop (snd (projr (Reflect_set 0 (KStr ''bar'') (VNum 2)
                                (createReactive 1 False False) bar_registered))) 0 (KStr ''bar'')
           = VNum 1"
    unfolding bar_defs by (simp add: eval_defs)
  show ?thesis
    using foreign_receiver_write_is_silent[OF other ty rs,
        of "run_effect (Suc 0) (plain_prog read_bar_body)" "plain_prog read_bar_body" False]
      ty sub old v
    by simp
qed

section \<open>Assigning the length of an array\<close>

text \<open>
  Claim C10: assigning a value to the \<open>length\<close> of a reactive array completes without
  throwing in every state of the dependency store, also when a computation holds an
  enumeration subscription (\<open>ITERATE_KEY\<close>) on the array.

  The truncation scan compares every key of the Map with the new length. With the array
  \<^verbatim>\<open>['foo']\<close>, an effect that enumerates its keys, and then \<^verbatim>\<open>arr.length = 0\<close>, the
  comparison of the symbol throws a TypeError.
\<close>

theorem length_assignment_throws_on_symbol_key:
  "run_script (Suc 0) (plain_prog enumerate_body)
     [Effect 0, Do (OSet (reactive 0) (KStr ''length'') (VNum 0))] (init array_foo)
   = Inl TypeError"
  by (simp add: eval_defs enumerate_body_def array_foo_def)

end
